theory Spec2Isabelle
  imports Main "HOL-Library.Char_ord" "HOL-Library.List_Lexorder"
begin

section \<open>Data model of TesterRunner\<close>

text \<open>
  The development embeds \<^verbatim>\<open>src/src/freeDView_tester_runner.cpp\<close>. A \<^verbatim>\<open>QString\<close> is a
  \<^typ>\<open>string\<close> (code units restricted to Latin-1), a C++ \<^verbatim>\<open>int\<close> is an \<^typ>\<open>int\<close>
  (the only place where the 32-bit range matters is \<^verbatim>\<open>QString::toInt\<close>, written out
  below), and a Qt signal emission is an element of the list of signals a handler returns.
\<close>

datatype Mode = Mode_None | Mode_All | Mode_CompareThenPrepare

datatype ProcessState = NotRunning | Starting | Running

datatype ExitStatus = NormalExit | CrashExit

text \<open>
  What a handler does to the outside: the five signals of the class, and the calls that
  start or kill one of its two \<^verbatim>\<open>QProcess\<close> members (program, arguments and working
  directory as they were set before \<^verbatim>\<open>start()\<close>).
\<close>

datatype effect =
    runStarted string
  | runFinished bool string int string string
  | progressUpdated int string
  | testProgressUpdated string int string
  | outputLine string bool
  | start_m_process string "string list" string
  | start_m_prepareUIProcess string "string list" string
  | kill_m_process
  | kill_m_prepareUIProcess

text \<open>
  What the runner reads from Qt and the file system while it handles one call: the
  states of the two processes, the directory and file queries of the launch, and the
  outcome of \<^verbatim>\<open>waitForStarted(5000)\<close>.
\<close>

record Env =
  m_process_state :: ProcessState
  m_prepareUIProcess_state :: ProcessState
  workingDirectoryOf :: "string \<Rightarrow> string"
  absoluteFilePath :: "string \<Rightarrow> string \<Rightarrow> string"
  fileExists :: "string \<Rightarrow> bool"
  programExists :: "string \<Rightarrow> bool"
  programIsExecutable :: "string \<Rightarrow> bool"
  findExecutable :: "string \<Rightarrow> string"
  waitForStarted :: bool
  errorString :: string

text \<open>
  What a process delivers while the runner blocks in \<^verbatim>\<open>waitForFinished\<close>: chunks of
  output (each one a \<^verbatim>\<open>readyReadStandardOutput\<close>), and then, when the process ends
  within the wait, its \<^verbatim>\<open>finished\<close> signal with exit code, exit status and the output
  and error text still unread. Qt emits these signals before \<^verbatim>\<open>waitForFinished\<close>
  returns, so the connected slots run inside the call.
\<close>

record Wait =
  chunks :: "string list"
  exited :: "(int \<times> ExitStatus \<times> string \<times> string) option"

text \<open>
  \<^verbatim>\<open>QMap<QString, int>\<close> keeps one entry per key and iterates in ascending key order: it is
  an association list that \<open>qmap_insert\<close> keeps sorted.
\<close>

type_synonym qmap = "(string \<times> int) list"

fun qmap_insert :: "string \<Rightarrow> int \<Rightarrow> qmap \<Rightarrow> qmap" where
  "qmap_insert k v [] = [(k, v)]"
| "qmap_insert k v ((k', v') # m) =
     (if k = k' then (k, v) # m
      else if k < k' then (k, v) # (k', v') # m
      else (k', v') # qmap_insert k v m)"

definition qmap_remove :: "string \<Rightarrow> qmap \<Rightarrow> qmap" where
  "qmap_remove k m = filter (\<lambda>e. fst e \<noteq> k) m"

definition qmap_contains :: "qmap \<Rightarrow> string \<Rightarrow> bool" where
  "qmap_contains m k = (map_of m k \<noteq> None)"

definition qmap_keys :: "qmap \<Rightarrow> string list" where
  "qmap_keys m = map fst m"

text \<open>\<^verbatim>\<open>m[k]\<close> read for a key (0, the default, for a key that is not there).\<close>

definition qmap_value :: "qmap \<Rightarrow> string \<Rightarrow> int" where
  "qmap_value m k = (case map_of m k of Some v \<Rightarrow> v | None \<Rightarrow> 0)"

record TesterRunner =
  m_mode :: Mode
  m_testerPath :: string
  m_iniPath :: string
  m_step2Queued :: bool
  m_currentTestKey :: string
  m_activeTests :: qmap
  m_testKeyQueue :: "string list"

text \<open>The constructor: no process, no mode, nothing tracked.\<close>

definition initial :: TesterRunner where
  "initial = \<lparr> m_mode = Mode_None,
     m_testerPath = [], m_iniPath = [], m_step2Queued = False, m_currentTestKey = [],
     m_activeTests = [], m_testKeyQueue = [] \<rparr>"

section \<open>Attribution by frame count\<close>

text \<open>
  \<^verbatim>\<open>findTestKeyByFrameCount\<close>: the keys whose stored total equals the frame count and is
  positive are collected in map order; none gives the empty string, one gives that key,
  several give the first of them met when the queue is walked from its back to its
  front, and, when the queue holds none of them, the first collected key.
\<close>

definition matchingKeys :: "qmap \<Rightarrow> int \<Rightarrow> string list" where
  "matchingKeys m frameCount =
     map fst (filter (\<lambda>e. snd e = frameCount \<and> snd e > 0) m)"

definition findTestKeyByFrameCount :: "qmap \<Rightarrow> string list \<Rightarrow> int \<Rightarrow> string" where
  "findTestKeyByFrameCount m q frameCount =
     (let mk = matchingKeys m frameCount in
      if mk = [] then []
      else if length mk = 1 then hd mk
      else (case find (\<lambda>queueKey. queueKey \<in> set mk) (rev q) of
              Some queueKey \<Rightarrow> queueKey
            | None \<Rightarrow> hd mk))"

section \<open>Strings\<close>

text \<open>
  The \<^verbatim>\<open>QString\<close> operations the runner uses. Character classes are the ones of
  \<^verbatim>\<open>QChar\<close> on Latin-1: \<^verbatim>\<open>isSpace\<close> is U+0009..U+000D, U+0020, U+0085 and U+00A0;
  the regular-expression ranges \<^verbatim>\<open>A-Z\<close>, \<^verbatim>\<open>a-z\<close> and \<^verbatim>\<open>0-9\<close> and the class
  \<^verbatim>\<open>\d\<close> are the ASCII ones. Lower-casing and case folding are given on the ASCII
  letters; the runner only ever compares their results with ASCII text, and no other
  Latin-1 character lower-cases or folds to an ASCII letter.
\<close>

definition isSpace :: "char \<Rightarrow> bool" where
  "isSpace c = (c \<in> set [CHR 0x09, CHR 0x0A, CHR 0x0B, CHR 0x0C, CHR 0x0D, CHR 0x20,
                          CHR 0x85, CHR 0xA0])"

definition isDigit :: "char \<Rightarrow> bool" where
  "isDigit c = (c \<in> set ''0123456789'')"

definition isUpperAZ :: "char \<Rightarrow> bool" where
  "isUpperAZ c = (c \<in> set ''ABCDEFGHIJKLMNOPQRSTUVWXYZ'')"

definition isLowerAZ :: "char \<Rightarrow> bool" where
  "isLowerAZ c = (c \<in> set ''abcdefghijklmnopqrstuvwxyz'')"

definition toLower_char :: "char \<Rightarrow> char" where
  "toLower_char c =
     (case map_of (zip ''ABCDEFGHIJKLMNOPQRSTUVWXYZ'' ''abcdefghijklmnopqrstuvwxyz'') c of
        Some l \<Rightarrow> l
      | None \<Rightarrow> c)"

definition toLower :: "string \<Rightarrow> string" where
  "toLower s = map toLower_char s"

definition trimmed :: "string \<Rightarrow> string" where
  "trimmed s = rev (dropWhile isSpace (rev (dropWhile isSpace s)))"

text \<open>\<^verbatim>\<open>s.replace("\\", "/")\<close>: every backslash becomes a forward slash.\<close>

definition replaceBackslash :: "string \<Rightarrow> string" where
  "replaceBackslash s = map (\<lambda>c. if c = CHR 0x5C then CHR ''/'' else c) s"

text \<open>
  \<^verbatim>\<open>s.indexOf(pat)\<close>: the first position at which \<open>pat\<close> occurs, \<open>None\<close> for the
  \<^verbatim>\<open>-1\<close> of Qt. The case-insensitive variant compares case-folded text.
\<close>

fun indexOf :: "string \<Rightarrow> string \<Rightarrow> nat option" where
  "indexOf [] pat = (if pat = [] then Some 0 else None)"
| "indexOf (c # s) pat =
     (if take (length pat) (c # s) = pat then Some 0
      else map_option Suc (indexOf s pat))"

definition indexOf_CaseInsensitive :: "string \<Rightarrow> string \<Rightarrow> nat option" where
  "indexOf_CaseInsensitive s pat = indexOf (toLower s) (toLower pat)"

definition contains_CaseInsensitive :: "string \<Rightarrow> string \<Rightarrow> bool" where
  "contains_CaseInsensitive s pat = (indexOf_CaseInsensitive s pat \<noteq> None)"

text \<open>\<^verbatim>\<open>s.split(sep)\<close> keeps empty parts; \<^verbatim>\<open>QString::SkipEmptyParts\<close> drops them.\<close>

fun split :: "char \<Rightarrow> string \<Rightarrow> string list" where
  "split sep [] = [[]]"
| "split sep (c # s) =
     (if c = sep then [] # split sep s
      else (c # hd (split sep s)) # tl (split sep s))"

definition split_SkipEmptyParts :: "char \<Rightarrow> string \<Rightarrow> string list" where
  "split_SkipEmptyParts sep s = filter (\<lambda>part. part \<noteq> []) (split sep s)"

fun join :: "string list \<Rightarrow> string \<Rightarrow> string" where
  "join [] sep = []"
| "join [part] sep = part"
| "join (part # parts) sep = part @ sep @ join parts sep"

text \<open>
  \<^verbatim>\<open>QString::toInt\<close> on a captured run of digits: the value, or 0 when it does not fit
  a 32-bit \<^verbatim>\<open>int\<close> (the conversion fails and the failure flag is not read).
\<close>

definition digitValue :: "char \<Rightarrow> int" where
  "digitValue c = (case indexOf ''0123456789'' [c] of Some d \<Rightarrow> int d | None \<Rightarrow> 0)"

definition toInt :: "string \<Rightarrow> int" where
  "toInt ds = (let v = foldl (\<lambda>a c. 10 * a + digitValue c) 0 ds
               in if ds \<noteq> [] \<and> list_all isDigit ds \<and> v \<le> 2147483647 then v else 0)"

text \<open>\<^verbatim>\<open>QString::arg(int)\<close> prints the number in decimal.\<close>

fun number_nat :: "nat \<Rightarrow> string" where
  "number_nat n =
     (if n < 10 then [''0123456789'' ! n]
      else number_nat (n div 10) @ [''0123456789'' ! (n mod 10)])"

definition number :: "int \<Rightarrow> string" where
  "number i = (if i < 0 then CHR ''-'' # number_nat (nat (- i)) else number_nat (nat i))"

section \<open>Test key of a folder path\<close>

text \<open>
  The two loops of \<^verbatim>\<open>extractTestKeyFromPath\<close>: the index moves over the slashes that
  follow the marker, and the trailing slashes of the key are chopped one by one.
\<close>

function skipSlashes :: "string \<Rightarrow> nat \<Rightarrow> nat" where
  "skipSlashes normalizedPath startIndex =
     (if startIndex < length normalizedPath \<and> normalizedPath ! startIndex = CHR ''/''
      then skipSlashes normalizedPath (startIndex + 1)
      else startIndex)"
  by pat_completeness auto
termination
  by (relation "measure (\<lambda>(p, i). length p - i)") auto

function chopSlashes :: "string \<Rightarrow> string" where
  "chopSlashes testKey =
     (if testKey \<noteq> [] \<and> last testKey = CHR ''/''
      then chopSlashes (butlast testKey)
      else testKey)"
  by pat_completeness auto
termination
  by (relation "measure length") auto

text \<open>
  The fallback pattern \<^verbatim>\<open>([A-Za-z0-9_\s/]+/[A-Z0-9_]+/[A-Z0-9]+/F\d+)\<close>. Its tail
  \<^verbatim>\<open>/[A-Z0-9_]+/[A-Z0-9]+/F\d+\<close> matches in one way only at a given position, each
  class being followed by a character outside it; the leading class is greedy, so of the
  positions it can reach the last one where the tail matches is taken, and the search
  returns the match at the leftmost position where there is one.
\<close>

definition isClassA :: "char \<Rightarrow> bool" where
  "isClassA c = (isUpperAZ c \<or> isLowerAZ c \<or> isDigit c \<or> c = CHR ''_'' \<or> isSpace c \<or> c = CHR ''/'')"

definition isClassB :: "char \<Rightarrow> bool" where
  "isClassB c = (isUpperAZ c \<or> isDigit c \<or> c = CHR ''_'')"

definition isClassC :: "char \<Rightarrow> bool" where
  "isClassC c = (isUpperAZ c \<or> isDigit c)"

text \<open>A non-empty maximal run of a class: its length and what follows it.\<close>

definition run1 :: "(char \<Rightarrow> bool) \<Rightarrow> string \<Rightarrow> (nat \<times> string) option" where
  "run1 cls s = (if takeWhile cls s = [] then None
                 else Some (length (takeWhile cls s), dropWhile cls s))"

definition testKeyTail :: "string \<Rightarrow> nat option" where
  "testKeyTail s =
     (case s of
        c1 # s1 \<Rightarrow>
          if c1 \<noteq> CHR ''/'' then None
          else (case run1 isClassB s1 of
            None \<Rightarrow> None
          | Some (nb, s2) \<Rightarrow>
              (case s2 of
                 c2 # s3 \<Rightarrow>
                   if c2 \<noteq> CHR ''/'' then None
                   else (case run1 isClassC s3 of
                     None \<Rightarrow> None
                   | Some (nc, s4) \<Rightarrow>
                       (case s4 of
                          c3 # c4 # s5 \<Rightarrow>
                            if c3 \<noteq> CHR ''/'' \<or> c4 \<noteq> CHR ''F'' then None
                            else (case run1 isDigit s5 of
                              None \<Rightarrow> None
                            | Some (nd, s6) \<Rightarrow> Some (1 + nb + 1 + nc + 2 + nd))
                        | _ \<Rightarrow> None))
               | [] \<Rightarrow> None))
      | [] \<Rightarrow> None)"

definition testKeyRegexHere :: "string \<Rightarrow> string option" where
  "testKeyRegexHere s =
     (let n = length (takeWhile isClassA s) in
      case find (\<lambda>k. testKeyTail (drop k s) \<noteq> None) (rev [1 ..< Suc n]) of
        None \<Rightarrow> None
      | Some k \<Rightarrow>
          (case testKeyTail (drop k s) of
             None \<Rightarrow> None
           | Some l \<Rightarrow> Some (take (k + l) s)))"

text \<open>\<^verbatim>\<open>QRegExp::indexIn\<close>: the match at the leftmost position that has one.\<close>

fun indexIn :: "(string \<Rightarrow> 'a option) \<Rightarrow> string \<Rightarrow> 'a option" where
  "indexIn here [] = here []"
| "indexIn here (c # s) =
     (case here (c # s) of Some r \<Rightarrow> Some r | None \<Rightarrow> indexIn here s)"

definition extractTestKeyFromPath :: "string \<Rightarrow> string" where
  "extractTestKeyFromPath folderPath =
     (let normalizedPath = replaceBackslash folderPath;
          lowerPath = toLower normalizedPath
      in case indexOf lowerPath ''testsets_results'' of
        Some testSetsResultsIndex \<Rightarrow>
          (let startIndex =
                 (case indexOf_CaseInsensitive normalizedPath ''testSets_results'' of
                    Some actualStartIndex \<Rightarrow> actualStartIndex + length ''testSets_results''
                  | None \<Rightarrow> testSetsResultsIndex + length ''testSets_results'');
               testKey = drop (skipSlashes normalizedPath startIndex) normalizedPath
           in replaceBackslash (chopSlashes testKey))
      | None \<Rightarrow>
          (case indexIn testKeyRegexHere normalizedPath of
             Some testKey \<Rightarrow>
               (let parts = split (CHR ''/'') testKey
                in if length parts \<ge> 4
                   then join (drop (length parts - 4) parts) ''/''
                   else testKey)
           | None \<Rightarrow> []))"

section \<open>The lines of the tester's output\<close>

text \<open>
  The patterns of the output handler. In each of them a repeated class is followed by a
  character outside the class, so a pattern matches in one way at a given position, and
  \<open>indexIn\<close> takes the leftmost position. The captures are returned as text.
\<close>

definition lit :: "string \<Rightarrow> string \<Rightarrow> string option" where
  "lit l s = (if take (length l) s = l then Some (drop (length l) s) else None)"

definition digits1 :: "string \<Rightarrow> (string \<times> string) option" where
  "digits1 s = (if takeWhile isDigit s = [] then None
                else Some (takeWhile isDigit s, dropWhile isDigit s))"

text \<open>
  \<^verbatim>\<open>prefix\s*(.+)\<close>: something must follow the prefix; the capture is what follows the
  white space, or the last white-space character when nothing else follows.
\<close>

definition restRegexHere :: "string \<Rightarrow> string \<Rightarrow> string option" where
  "restRegexHere prefix s =
     (case lit prefix s of
        None \<Rightarrow> None
      | Some r \<Rightarrow>
          if r = [] then None
          else if dropWhile isSpace r = [] then Some [last r]
          else Some (dropWhile isSpace r))"

text \<open>\<^verbatim>\<open>prefix\s*(\d+)/(\d+)\s*frames\<close>, returning the captures and the rest.\<close>

definition framesRegexHere :: "string \<Rightarrow> string \<Rightarrow> ((string \<times> string) \<times> string) option" where
  "framesRegexHere prefix s =
     (case lit prefix s of None \<Rightarrow> None | Some s1 \<Rightarrow>
      (case digits1 (dropWhile isSpace s1) of None \<Rightarrow> None | Some (c1, s2) \<Rightarrow>
      (case lit ''/'' s2 of None \<Rightarrow> None | Some s3 \<Rightarrow>
      (case digits1 s3 of None \<Rightarrow> None | Some (c2, s4) \<Rightarrow>
      (case lit ''frames'' (dropWhile isSpace s4) of None \<Rightarrow> None | Some s5 \<Rightarrow>
         Some ((c1, c2), s5))))))"

text \<open>\<^verbatim>\<open>prefix\s*(\d+)/(\d+)\s*frames\s*\((\d+)%\)\<close>.\<close>

definition percentRegexHere :: "string \<Rightarrow> string \<Rightarrow> (string \<times> string \<times> string) option" where
  "percentRegexHere prefix s =
     (case framesRegexHere prefix s of None \<Rightarrow> None | Some ((c1, c2), s5) \<Rightarrow>
      (case lit ''('' (dropWhile isSpace s5) of None \<Rightarrow> None | Some s6 \<Rightarrow>
      (case digits1 s6 of None \<Rightarrow> None | Some (c3, s7) \<Rightarrow>
      (case lit ''%)'' s7 of None \<Rightarrow> None | Some s8 \<Rightarrow>
         Some (c1, c2, c3)))))"

definition startingRegex :: "string \<Rightarrow> string option" where
  "startingRegex line = indexIn (restRegexHere ''Starting comparison for:'') line"

definition progressRegex :: "string \<Rightarrow> (string \<times> string \<times> string) option" where
  "progressRegex line = indexIn (percentRegexHere ''Progress:'') line"

definition overallProgressRegex :: "string \<Rightarrow> (string \<times> string \<times> string) option" where
  "overallProgressRegex line = indexIn (percentRegexHere ''Overall progress:'') line"

definition currentFolderRegex :: "string \<Rightarrow> (string \<times> string) option" where
  "currentFolderRegex line =
     map_option fst (indexIn (framesRegexHere ''Current folder:'') line)"

definition completedRegex :: "string \<Rightarrow> string option" where
  "completedRegex line =
     indexIn (restRegexHere ''Successfully completed comparison for:'') line"

text \<open>\<^verbatim>\<open>Phase\s*(\d+)\<close>.\<close>

definition phaseRegex :: "string \<Rightarrow> string option" where
  "phaseRegex line =
     indexIn (\<lambda>s. case lit ''Phase'' s of None \<Rightarrow> None
                   | Some s1 \<Rightarrow> map_option fst (digits1 (dropWhile isSpace s1))) line"

section \<open>The output handler\<close>

text \<open>
  The loop that assigns a total no key has yet: the queue is walked from its front, and
  the first key that is in the map with total 0 takes the total. It returns the matched
  key (empty when there is none) and the map.
\<close>

fun assignOldestUnknown :: "string list \<Rightarrow> qmap \<Rightarrow> int \<Rightarrow> string \<times> qmap" where
  "assignOldestUnknown [] m totalFrames = ([], m)"
| "assignOldestUnknown (queueKey # q) m totalFrames =
     (if qmap_contains m queueKey \<and> qmap_value m queueKey = 0
      then (queueKey, qmap_insert queueKey totalFrames m)
      else assignOldestUnknown q m totalFrames)"

text \<open>
  The attribution of a progress line, written twice in the source (for
  \<^verbatim>\<open>Progress:\<close> and for \<^verbatim>\<open>Current folder:\<close>): by frame count first, by the loop
  above when that gives the empty string.
\<close>

definition matchTestKey :: "int \<Rightarrow> TesterRunner \<Rightarrow> string \<times> TesterRunner" where
  "matchTestKey totalFrames st =
     (let matchedTestKey =
            findTestKeyByFrameCount (m_activeTests st) (m_testKeyQueue st) totalFrames
      in if matchedTestKey = []
         then (let (k, m) = assignOldestUnknown (m_testKeyQueue st) (m_activeTests st) totalFrames
               in (k, st\<lparr>m_activeTests := m\<rparr>))
         else (matchedTestKey, st))"

definition processingMessage :: "int \<Rightarrow> int \<Rightarrow> string" where
  "processingMessage current totalFrames =
     ''Processing: '' @ number current @ ''/'' @ number totalFrames @ '' frames''"

definition onStartingComparison :: "string \<Rightarrow> TesterRunner \<Rightarrow> TesterRunner \<times> effect list" where
  "onStartingComparison folderPath st =
     (let testKey = extractTestKeyFromPath folderPath in
      if testKey \<noteq> []
      then (st\<lparr>m_currentTestKey := testKey,
                m_activeTests := qmap_insert testKey 0 (m_activeTests st),
                m_testKeyQueue := m_testKeyQueue st @ [testKey]\<rparr>,
            [testProgressUpdated testKey 0 ''Starting...''])
      else (st, []))"

definition onProgress :: "int \<Rightarrow> int \<Rightarrow> int \<Rightarrow> TesterRunner \<Rightarrow> TesterRunner \<times> effect list" where
  "onProgress current totalFrames percent st =
     (let message = processingMessage current totalFrames;
          (matchedTestKey, st') = matchTestKey totalFrames st
      in (st', (if matchedTestKey \<noteq> []
                then [testProgressUpdated matchedTestKey percent message] else [])
               @ [progressUpdated percent message]))"

text \<open>
  \<^verbatim>\<open>folderTotal > 0 ? (int)((folderCurrent * 100.0) / folderTotal) : 0\<close>. Both numbers
  come from \<open>toInt\<close>, so they are below \<open>2^31\<close>, and the product and the quotient are
  exact in a \<^verbatim>\<open>double\<close> up to the truncation. The conversion to a 32-bit \<^verbatim>\<open>int\<close>
  gives the integer quotient when it fits. It is undefined in C++ when the quotient
  exceeds \<open>2^31 - 1\<close>; the truncating conversion of x86-64 then gives the least 32-bit
  integer, which is the value written here.
\<close>

definition folderPercentOf :: "int \<Rightarrow> int \<Rightarrow> int" where
  "folderPercentOf folderCurrent folderTotal =
     (if folderTotal > 0
      then (if (folderCurrent * 100) div folderTotal \<le> 2147483647
            then (folderCurrent * 100) div folderTotal
            else - 2147483648)
      else 0)"

definition onOverallProgress ::
  "int \<Rightarrow> int \<Rightarrow> int \<Rightarrow> (int \<times> int) option \<Rightarrow> TesterRunner \<Rightarrow> TesterRunner \<times> effect list" where
  "onOverallProgress current totalFrames percent currentFolder st =
     (let (st', effs) =
            (case currentFolder of
               None \<Rightarrow> (st, [])
             | Some (folderCurrent, folderTotal) \<Rightarrow>
                 (let folderPercent = folderPercentOf folderCurrent folderTotal;
                      message = processingMessage folderCurrent folderTotal;
                      (matchedTestKey, st') = matchTestKey folderTotal st
                  in (st', if matchedTestKey \<noteq> []
                           then [testProgressUpdated matchedTestKey folderPercent message]
                           else [])))
      in (st', effs @ [progressUpdated percent (processingMessage current totalFrames)]))"

definition onSuccessfullyCompleted :: "string \<Rightarrow> TesterRunner \<Rightarrow> TesterRunner \<times> effect list" where
  "onSuccessfullyCompleted folderPath st =
     (let testKey = extractTestKeyFromPath folderPath in
      if testKey \<noteq> []
      then (st\<lparr>m_activeTests := qmap_remove testKey (m_activeTests st),
                m_testKeyQueue := remove1 testKey (m_testKeyQueue st),
                m_currentTestKey :=
                  (if m_currentTestKey st = testKey then [] else m_currentTestKey st)\<rparr>,
            [testProgressUpdated testKey 100 ''Completed''])
      else if m_currentTestKey st \<noteq> []
      then (st\<lparr>m_activeTests := qmap_remove (m_currentTestKey st) (m_activeTests st),
                m_currentTestKey := []\<rparr>,
            [testProgressUpdated (m_currentTestKey st) 100 ''Completed''])
      else (st, []))"

text \<open>The older completion marker: the current key leaves the map, not the queue.\<close>

definition onFrameComparisonCompleted :: "TesterRunner \<Rightarrow> TesterRunner \<times> effect list" where
  "onFrameComparisonCompleted st =
     (if m_currentTestKey st \<noteq> []
      then (st\<lparr>m_activeTests := qmap_remove (m_currentTestKey st) (m_activeTests st)\<rparr>,
            [testProgressUpdated (m_currentTestKey st) 100 ''Completed''])
      else (st, []))"

text \<open>The three checks that a line reaches when none of the four patterns matched it.\<close>

definition onOtherLine :: "string \<Rightarrow> TesterRunner \<Rightarrow> TesterRunner \<times> effect list" where
  "onOtherLine line st =
     (let (st1, effs1) =
            (if contains_CaseInsensitive line ''Frame comparison completed''
             then onFrameComparisonCompleted st else (st, []));
          effs2 =
            (if contains_CaseInsensitive line ''Phase'' \<and> contains_CaseInsensitive line ''completed''
             then (case phaseRegex line of
                     Some phaseNum \<Rightarrow> [progressUpdated (- 1) (''Phase '' @ phaseNum @ '' completed'')]
                   | None \<Rightarrow> [])
             else []);
          effs3 =
            (if contains_CaseInsensitive line ''All phases completed''
                \<or> contains_CaseInsensitive line ''completed successfully''
             then [progressUpdated 100 ''Processing completed''] else [])
      in (st1, effs1 @ effs2 @ effs3))"

definition processLine :: "string \<Rightarrow> TesterRunner \<Rightarrow> TesterRunner \<times> effect list" where
  "processLine line st =
     (case startingRegex line of
        Some cap1 \<Rightarrow> onStartingComparison (trimmed cap1) st
      | None \<Rightarrow>
     (case progressRegex line of
        Some (c1, c2, c3) \<Rightarrow> onProgress (toInt c1) (toInt c2) (toInt c3) st
      | None \<Rightarrow>
     (case overallProgressRegex line of
        Some (c1, c2, c3) \<Rightarrow>
          onOverallProgress (toInt c1) (toInt c2) (toInt c3)
            (map_option (\<lambda>(a, b). (toInt a, toInt b)) (currentFolderRegex line)) st
      | None \<Rightarrow>
     (case completedRegex line of
        Some cap1 \<Rightarrow> onSuccessfullyCompleted (trimmed cap1) st
      | None \<Rightarrow> onOtherLine line st))))"

fun processLines :: "string list \<Rightarrow> TesterRunner \<Rightarrow> TesterRunner \<times> effect list" where
  "processLines [] st = (st, [])"
| "processLines (line # lines) st =
     (let (st1, effs1) = processLine line st;
          (st2, effs2) = processLines lines st1
      in (st2, effs1 @ effs2))"

text \<open>The raw lines of a chunk, trimmed, the empty ones left out.\<close>

definition rawOutputLines :: "string \<Rightarrow> string \<Rightarrow> bool \<Rightarrow> effect list" where
  "rawOutputLines tag output isError =
     map (\<lambda>trimmedLine. outputLine (tag @ trimmedLine) isError)
       (filter (\<lambda>trimmedLine. trimmedLine \<noteq> []) (map trimmed (split (CHR 0x0A) output)))"

definition onReadyReadStandardOutput :: "string \<Rightarrow> TesterRunner \<Rightarrow> TesterRunner \<times> effect list" where
  "onReadyReadStandardOutput output st =
     (let (st', effs) = processLines (split_SkipEmptyParts (CHR 0x0A) output) st
      in (st', rawOutputLines [] output False @ effs))"

definition onReadyReadStandardError :: "string \<Rightarrow> TesterRunner \<Rightarrow> TesterRunner \<times> effect list" where
  "onReadyReadStandardError output st = (st, rawOutputLines [] output True)"

section \<open>Starting, finishing and stopping\<close>

text \<open>
  The argument list, built in the same way by the three run requests and by
  \<^verbatim>\<open>runNextStep\<close>: the tester's own INI file when it exists, the given one otherwise.
\<close>

definition commandLine :: "Env \<Rightarrow> string \<Rightarrow> string \<Rightarrow> string \<Rightarrow> string list" where
  "commandLine env testerPath iniPath subcommand =
     (let testerIniPath = absoluteFilePath env testerPath ''freeDView_tester.ini'';
          actualIniPath = (if fileExists env testerIniPath then testerIniPath else iniPath)
      in [''main.py'']
         @ (if actualIniPath \<noteq> [] then [''--ini'', actualIniPath] else [])
         @ [subcommand])"

text \<open>
  \<^verbatim>\<open>startProcess\<close> writes no member of the runner: it sets up the process, and reports
  a program that cannot be found, or a process that does not start within the wait, by
  \<^verbatim>\<open>runFinished\<close> with mode \<^verbatim>\<open>"unknown"\<close>.
\<close>

definition startProcess ::
  "Env \<Rightarrow> string \<Rightarrow> string list \<Rightarrow> string \<Rightarrow> TesterRunner \<Rightarrow> TesterRunner \<times> effect list" where
  "startProcess env program args workingDir st =
     (if \<not> programExists env program \<and> \<not> programIsExecutable env program
         \<and> findExecutable env program = []
      then (st, [runFinished False ''unknown'' (- 1) [] (''Program not found: '' @ program)])
      else if \<not> waitForStarted env
      then (st, [start_m_process program args workingDir,
                 runFinished False ''unknown'' (- 1) []
                   (''Failed to start process: '' @ errorString env)])
      else (st, [start_m_process program args workingDir]))"

definition runAll :: "Env \<Rightarrow> string \<Rightarrow> string \<Rightarrow> TesterRunner \<Rightarrow> TesterRunner \<times> effect list" where
  "runAll env testerPath iniPath st =
     (if testerPath = []
      then (st, [runFinished False ''all'' (- 1) [] ''Invalid tester path''])
      else if iniPath = []
      then (st, [runFinished False ''all'' (- 1) [] ''Invalid INI path''])
      else
        (let st1 = st\<lparr>m_testerPath := testerPath, m_iniPath := iniPath, m_mode := Mode_All,
                       m_step2Queued := False, m_currentTestKey := [],
                       m_activeTests := [], m_testKeyQueue := []\<rparr>;
             (st2, effs) = startProcess env ''python''
                             (commandLine env testerPath iniPath ''all'')
                             (workingDirectoryOf env testerPath) st1
         in (st2, runStarted ''all'' # effs)))"

definition runCompareAndPrepare ::
  "Env \<Rightarrow> string \<Rightarrow> string \<Rightarrow> TesterRunner \<Rightarrow> TesterRunner \<times> effect list" where
  "runCompareAndPrepare env testerPath iniPath st =
     (if testerPath = []
      then (st, [runFinished False ''compare+prepare'' (- 1) [] ''Invalid tester path''])
      else if iniPath = []
      then (st, [runFinished False ''compare+prepare'' (- 1) [] ''Invalid INI path''])
      else
        (let st1 = st\<lparr>m_testerPath := testerPath, m_iniPath := iniPath,
                       m_mode := Mode_CompareThenPrepare,
                       m_step2Queued := False, m_currentTestKey := [],
                       m_activeTests := [], m_testKeyQueue := []\<rparr>;
             (st2, effs) = startProcess env ''python''
                             (commandLine env testerPath iniPath ''compare'')
                             (workingDirectoryOf env testerPath) st1
         in (st2, runStarted ''compare+prepare'' # effs)))"

definition isActive :: "ProcessState \<Rightarrow> bool" where
  "isActive s = (s = Running \<or> s = Starting)"

definition runPrepareUI ::
  "Env \<Rightarrow> string \<Rightarrow> string \<Rightarrow> TesterRunner \<Rightarrow> TesterRunner \<times> effect list" where
  "runPrepareUI env testerPath iniPath st =
     (if testerPath = []
      then (st, [runFinished False ''prepare-ui'' (- 1) [] ''Invalid tester path''])
      else if iniPath = []
      then (st, [runFinished False ''prepare-ui'' (- 1) [] ''Invalid INI path''])
      else if isActive (m_prepareUIProcess_state env)
      then (st, [])
      else (st, [runStarted ''prepare-ui'',
                 start_m_prepareUIProcess ''python''
                   (commandLine env testerPath iniPath ''prepare-ui'')
                   (workingDirectoryOf env testerPath)]))"

definition runNextStep :: "Env \<Rightarrow> TesterRunner \<Rightarrow> TesterRunner \<times> effect list" where
  "runNextStep env st =
     (if m_mode st \<noteq> Mode_CompareThenPrepare then (st, [])
      else startProcess env ''python''
             (commandLine env (m_testerPath st) (m_iniPath st) ''prepare-ui'')
             (workingDirectoryOf env (m_testerPath st)) st)"

definition modeStr :: "Mode \<Rightarrow> string" where
  "modeStr m = (if m = Mode_All then ''all''
                else if m = Mode_CompareThenPrepare then ''compare+prepare''
                else ''unknown'')"

text \<open>
  The slot of the main process's \<^verbatim>\<open>finished\<close> signal. \<open>stdOut\<close> and \<open>stdErr\<close> are
  what is still unread at that moment. (The process is no longer running when the
  signal is emitted, so the wait at the head of the slot is not entered.)
\<close>

definition onProcessFinished ::
  "Env \<Rightarrow> int \<Rightarrow> ExitStatus \<Rightarrow> string \<Rightarrow> string \<Rightarrow> TesterRunner \<Rightarrow> TesterRunner \<times> effect list" where
  "onProcessFinished env exitCode exitStatus stdOut stdErr st =
     (let st1 = st\<lparr>m_activeTests := [], m_testKeyQueue := [], m_currentTestKey := []\<rparr>;
          effs1 = [progressUpdated 100 ''Processing completed'']
      in if m_mode st1 = Mode_CompareThenPrepare \<and> \<not> m_step2Queued st1
         then (let (st2, effs2) = runNextStep env (st1\<lparr>m_step2Queued := True\<rparr>)
               in (st2, effs1 @ effs2))
         else (let success = (exitStatus = NormalExit \<and> exitCode = 0)
               in (st1\<lparr>m_mode := Mode_None, m_step2Queued := False\<rparr>,
                   effs1 @ [runFinished success (modeStr (m_mode st1)) exitCode stdOut stdErr])))"

definition onPrepareUIProcessFinished ::
  "int \<Rightarrow> ExitStatus \<Rightarrow> string \<Rightarrow> string \<Rightarrow> TesterRunner \<Rightarrow> TesterRunner \<times> effect list" where
  "onPrepareUIProcessFinished exitCode exitStatus stdOut stdErr st =
     (let success = (exitStatus = NormalExit \<and> exitCode = 0)
      in (st, [runFinished success ''prepare-ui'' exitCode stdOut stdErr]))"

text \<open>The output handlers of the Phase 4 process only forward the lines.\<close>

definition onPrepareUIReadyRead :: "string \<Rightarrow> bool \<Rightarrow> TesterRunner \<Rightarrow> TesterRunner \<times> effect list" where
  "onPrepareUIReadyRead output isError st = (st, rawOutputLines ''[Phase 4] '' output isError)"

text \<open>
  What runs inside \<^verbatim>\<open>m_process.waitForFinished\<close>: the output handler on each chunk,
  then the \<^verbatim>\<open>finished\<close> slot when the process has ended. The same for the Phase 4
  process with its own slots.
\<close>

fun deliverChunks :: "string list \<Rightarrow> TesterRunner \<Rightarrow> TesterRunner \<times> effect list" where
  "deliverChunks [] st = (st, [])"
| "deliverChunks (output # outputs) st =
     (let (st1, effs1) = onReadyReadStandardOutput output st;
          (st2, effs2) = deliverChunks outputs st1
      in (st2, effs1 @ effs2))"

definition duringWait :: "Env \<Rightarrow> Wait \<Rightarrow> TesterRunner \<Rightarrow> TesterRunner \<times> effect list" where
  "duringWait env w st =
     (let (st1, effs1) = deliverChunks (chunks w) st
      in case exited w of
           None \<Rightarrow> (st1, effs1)
         | Some (exitCode, exitStatus, stdOut, stdErr) \<Rightarrow>
             (let (st2, effs2) = onProcessFinished env exitCode exitStatus stdOut stdErr st1
              in (st2, effs1 @ effs2)))"

definition duringWaitPrepareUI :: "Wait \<Rightarrow> TesterRunner \<Rightarrow> TesterRunner \<times> effect list" where
  "duringWaitPrepareUI w st =
     (let effs1 = concat (map (\<lambda>output. rawOutputLines ''[Phase 4] '' output False) (chunks w))
      in case exited w of
           None \<Rightarrow> (st, effs1)
         | Some (exitCode, exitStatus, stdOut, stdErr) \<Rightarrow>
             (let (st2, effs2) = onPrepareUIProcessFinished exitCode exitStatus stdOut stdErr st
              in (st2, effs1 @ effs2)))"

text \<open>
  \<^verbatim>\<open>stop()\<close>. \<open>w\<close> and \<open>w4\<close> are what the two processes deliver during the two waits of
  2000 ms; \<^verbatim>\<open>waitForFinished\<close> returns true exactly when the process has ended in it,
  and the process is killed a second time otherwise.
\<close>

definition stop :: "Env \<Rightarrow> Wait \<Rightarrow> Wait \<Rightarrow> TesterRunner \<Rightarrow> TesterRunner \<times> effect list" where
  "stop env w w4 st =
     (let (st1, effs1) =
            (if isActive (m_process_state env)
             then (let (st', effs') = duringWait env w st;
                       again = (if exited w = None then [kill_m_process] else []);
                       cancelled = map (\<lambda>k. testProgressUpdated k (- 1) ''Cancelled'')
                                     (qmap_keys (m_activeTests st'))
                   in (st'\<lparr>m_activeTests := [], m_testKeyQueue := [], m_currentTestKey := [],
                           m_mode := Mode_None, m_step2Queued := False\<rparr>,
                       [kill_m_process] @ effs' @ again @ cancelled
                       @ [runFinished False (modeStr (m_mode st')) (- 1) []
                            ''Operation cancelled by user'']))
             else (st, []));
          (st2, effs2) =
            (if isActive (m_prepareUIProcess_state env)
             then (let (st', effs') = duringWaitPrepareUI w4 st1;
                       again = (if exited w4 = None then [kill_m_prepareUIProcess] else [])
                   in (st', [kill_m_prepareUIProcess] @ effs' @ again
                            @ [runFinished False ''prepare-ui'' (- 1) []
                                 ''Phase 4 cancelled by user'']))
             else (st1, []))
      in (st2, effs1 @ effs2))"

section \<open>Notions used in the statements\<close>

text \<open>
  The tracker as the handlers keep it: the keys of the map are in strictly ascending
  order (one entry per key), none of them is empty, and each of them stands in the
  queue. (The lemmas of the last section show that every operation preserves this.)
\<close>

definition tracker_inv :: "TesterRunner \<Rightarrow> bool" where
  "tracker_inv st =
     (sorted_wrt (<) (qmap_keys (m_activeTests st)) \<and>
      list_all (\<lambda>k. k \<noteq> [] \<and> k \<in> set (m_testKeyQueue st)) (qmap_keys (m_activeTests st)))"

text \<open>The run-outcome events among the effects of a handler.\<close>

fun isRunFinished :: "effect \<Rightarrow> bool" where
  "isRunFinished (runFinished success mode exitCode stdOut stdErr) = True"
| "isRunFinished e = False"

definition runOutcomes :: "effect list \<Rightarrow> effect list" where
  "runOutcomes effs = filter isRunFinished effs"

text \<open>The per-test events with the message \<open>Cancelled\<close> among them.\<close>

fun isCancelled :: "effect \<Rightarrow> bool" where
  "isCancelled (testProgressUpdated testKey percentage message) = (message = ''Cancelled'')"
| "isCancelled e = False"

definition cancelledEvents :: "effect list \<Rightarrow> effect list" where
  "cancelledEvents effs = filter isCancelled effs"

text \<open>
  The \<open>Cancelled\<close> events and the run outcomes among the effects, in the order of their
  emission.
\<close>

definition cancellations :: "effect list \<Rightarrow> effect list" where
  "cancellations effs = filter (\<lambda>e. isCancelled e \<or> isRunFinished e) effs"

text \<open>
  An environment for the concrete instances below: the states of the two processes,
  whether \<open>python\<close> is found on the search path, and whether the process starts within
  the wait; there is no INI file of the tester's own.
\<close>

definition exampleEnv :: "ProcessState \<Rightarrow> ProcessState \<Rightarrow> bool \<Rightarrow> bool \<Rightarrow> Env" where
  "exampleEnv p p4 found started =
     \<lparr> m_process_state = p, m_prepareUIProcess_state = p4,
       workingDirectoryOf = (\<lambda>d. d),
       absoluteFilePath = (\<lambda>d f. d @ ''/'' @ f),
       fileExists = (\<lambda>f. False),
       programExists = (\<lambda>f. False),
       programIsExecutable = (\<lambda>f. False),
       findExecutable = (\<lambda>f. if found then ''/usr/bin/'' @ f else []),
       waitForStarted = started,
       errorString = ''No such file or directory'' \<rparr>"

section \<open>Properties of the attribution by frame count\<close>

lemma set_matchingKeys:
  "set (matchingKeys m n) = {k. (k, n) \<in> set m \<and> n > 0}"
  by (auto simp: matchingKeys_def image_iff)

lemma find_rev_last_position:
  assumes "find P (rev q) = Some r"
  shows "\<exists>i < length q. q ! i = r \<and> P r \<and> (\<forall>j. i < j \<and> j < length q \<longrightarrow> \<not> P (q ! j))"
proof -
  from assms obtain i where i: "i < length (rev q)" "P (rev q ! i)" "r = rev q ! i"
    "\<forall>j < i. \<not> P (rev q ! j)"
    by (auto simp: find_Some_iff)
  let ?p = "length q - Suc i"
  have p: "?p < length q" using i(1) by simp
  have at: "q ! ?p = r" using i(1,3) by (simp add: rev_nth)
  have later: "\<not> P (q ! j)" if "?p < j" "j < length q" for j
  proof -
    have "length q - Suc j < i" using that i(1) by simp
    then have "\<not> P (rev q ! (length q - Suc j))" using i(4) by blast
    moreover have "rev q ! (length q - Suc j) = q ! j"
      using that by (simp add: rev_nth)
    ultimately show ?thesis by simp
  qed
  have Pr: "P r" using i(2,3) by simp
  show ?thesis
  proof (intro exI conjI allI impI)
    show "?p < length q" by (rule p)
    show "q ! ?p = r" by (rule at)
    show "P r" by (rule Pr)
    fix j assume "?p < j \<and> j < length q"
    then show "\<not> P (q ! j)" using later by simp
  qed
qed

text \<open>
  C1. When the frame count equals the known (positive) total of two or more keys of the
  active-test map, and the start-order queue holds at least one of them, the key returned
  by \<open>findTestKeyByFrameCount\<close> is a matching key, and it is the one enqueued last:
  it stands at a position of the queue after which no matching key occurs.
\<close>

theorem findTestKeyByFrameCount_most_recent:
  assumes "k1 \<noteq> k2" and "(k1, n) \<in> set m" and "(k2, n) \<in> set m" and "n > 0"
    and "k1 \<in> set q"
  shows "(findTestKeyByFrameCount m q n, n) \<in> set m \<and>
    (\<exists>i < length q. q ! i = findTestKeyByFrameCount m q n \<and>
       (\<forall>j. i < j \<and> j < length q \<longrightarrow> (q ! j, n) \<notin> set m))"
proof -
  let ?mk = "matchingKeys m n"
  have mem: "\<And>k. k \<in> set ?mk \<longleftrightarrow> (k, n) \<in> set m"
    using assms(4) by (simp add: set_matchingKeys)
  have in1: "k1 \<in> set ?mk" and in2: "k2 \<in> set ?mk" using assms(2,3) mem by auto
  have len: "length ?mk \<noteq> 1"
  proof
    assume "length ?mk = 1"
    then obtain x where "?mk = [x]" by (auto simp: length_Suc_conv)
    with in1 in2 have "k1 = x" "k2 = x" by simp_all
    with assms(1) show False by simp
  qed
  have ne: "?mk \<noteq> []" using in1 by auto
  have "\<exists>x \<in> set (rev q). x \<in> set ?mk"
    using assms(5) in1 by auto
  then obtain r where r: "find (\<lambda>queueKey. queueKey \<in> set ?mk) (rev q) = Some r"
    by (cases "find (\<lambda>queueKey. queueKey \<in> set ?mk) (rev q)") (auto simp: find_None_iff)
  have res: "findTestKeyByFrameCount m q n = r"
    using len ne r by (simp add: findTestKeyByFrameCount_def Let_def)
  from find_rev_last_position [OF r] obtain i where
    i: "i < length q" "q ! i = r" "r \<in> set ?mk"
       "\<forall>j. i < j \<and> j < length q \<longrightarrow> q ! j \<notin> set ?mk"
    by blast
  have "(r, n) \<in> set m" using i(3) mem by simp
  moreover have "\<forall>j. i < j \<and> j < length q \<longrightarrow> (q ! j, n) \<notin> set m"
    using i(4) mem by simp
  ultimately show ?thesis unfolding res using i(1,2) by blast
qed

theorem findTestKeyByFrameCount_most_recent_witness:
  "(findTestKeyByFrameCount [(''A/x/s/F1'', 50), (''B/x/s/F2'', 50)]
      [''B/x/s/F2'', ''A/x/s/F1''] 50, 50::int)
     \<in> set [(''A/x/s/F1'', 50), (''B/x/s/F2'', 50)]"
  by (rule conjunct1 [OF findTestKeyByFrameCount_most_recent
        [of "''A/x/s/F1''" "''B/x/s/F2''"]]) simp_all

section \<open>Properties of the test key of a folder path\<close>

declare skipSlashes.simps [simp del] chopSlashes.simps [simp del]

lemma drop_skipSlashes:
  "drop (skipSlashes p i) p = dropWhile (\<lambda>c. c = CHR ''/'') (drop i p)"
proof (induction p i rule: skipSlashes.induct)
  case (1 p i)
  show ?case
  proof (cases "i < length p \<and> p ! i = CHR ''/''")
    case True
    then have "drop i p = CHR ''/'' # drop (Suc i) p" by (metis Cons_nth_drop_Suc)
    with True 1 show ?thesis by (subst skipSlashes.simps) simp
  next
    case False
    show ?thesis
    proof (cases "i < length p")
      case True
      then have "drop i p = p ! i # drop (Suc i) p" by (metis Cons_nth_drop_Suc)
      with True False show ?thesis by (subst skipSlashes.simps) simp
    next
      case False
      then show ?thesis by (subst skipSlashes.simps) simp
    qed
  qed
qed

lemma chopSlashes_eq:
  "chopSlashes s = rev (dropWhile (\<lambda>c. c = CHR ''/'') (rev s))"
proof (induction s rule: chopSlashes.induct)
  case (1 s)
  show ?case
  proof (cases "s \<noteq> [] \<and> last s = CHR ''/''")
    case True
    then obtain t where t: "s = t @ [CHR ''/'']" by (metis append_butlast_last_id)
    then have bl: "butlast s = t" by simp
    have "chopSlashes s = chopSlashes t"
      using True bl by (subst chopSlashes.simps) simp
    moreover have "dropWhile (\<lambda>c. c = CHR ''/'') (rev s) = dropWhile (\<lambda>c. c = CHR ''/'') (rev t)"
      by (simp add: t)
    ultimately show ?thesis using 1 True bl by simp
  next
    case False
    then have "dropWhile (\<lambda>c. c = CHR ''/'') (rev s) = rev s"
      by (cases s rule: rev_cases) auto
    moreover have "chopSlashes s = s"
      using False by (subst chopSlashes.simps) auto
    ultimately show ?thesis by simp
  qed
qed

lemma replaceBackslash_idem: "replaceBackslash (replaceBackslash s) = replaceBackslash s"
  by (simp add: replaceBackslash_def)

lemma replaceBackslash_append: "replaceBackslash (a @ b) = replaceBackslash a @ replaceBackslash b"
  by (simp add: replaceBackslash_def)

lemma replaceBackslash_drop: "replaceBackslash (drop n s) = drop n (replaceBackslash s)"
  by (simp add: replaceBackslash_def drop_map)

lemma replaceBackslash_dropWhile:
  "replaceBackslash (dropWhile (\<lambda>c. c = CHR ''/'') (replaceBackslash s)) = dropWhile (\<lambda>c. c = CHR ''/'') (replaceBackslash s)"
  by (induction s) (auto simp: replaceBackslash_def)

lemma toLower_marker: "toLower ''testSets_results'' = ''testsets_results''"
  by (simp add: toLower_def toLower_char_def)

lemma extract_marker_general:
  assumes "indexOf (toLower (replaceBackslash path)) ''testsets_results'' = Some i"
  shows "extractTestKeyFromPath path =
     replaceBackslash (chopSlashes (dropWhile (\<lambda>c. c = CHR ''/'') (drop (i + length ''testsets_results'') (replaceBackslash path))))"
  using assms
  by (simp add: extractTestKeyFromPath_def Let_def indexOf_CaseInsensitive_def toLower_marker drop_skipSlashes)

lemma backslash_notin_replaceBackslash: "CHR 0x5C \<notin> set (replaceBackslash s)"
  by (auto simp: replaceBackslash_def)

lemma replaceBackslash_id: "CHR 0x5C \<notin> set s \<Longrightarrow> replaceBackslash s = s"
  by (induction s) (auto simp: replaceBackslash_def)

lemma set_chopSlashes: "set (chopSlashes s) \<subseteq> set s"
  using set_dropWhileD [of _ "\<lambda>c. c = CHR ''/''" "rev s"] by (auto simp: chopSlashes_eq)

lemma chopSlashes_append:
  assumes "a \<noteq> []" and "last a \<noteq> CHR ''/''"
  shows "chopSlashes (a @ b) = a @ chopSlashes b"
proof -
  obtain x a' where a: "rev a = x # a'" "x \<noteq> CHR ''/''"
    using assms by (cases a rule: rev_cases) auto
  show ?thesis
    using a by (simp add: chopSlashes_eq dropWhile_append)
qed

lemma chopSlashes_all_slashes:
  "set s \<subseteq> {CHR ''/''} \<Longrightarrow> chopSlashes s = []"
  by (auto simp: chopSlashes_eq dropWhile_eq_Nil_conv)

lemma dropWhile_slashes_replaceBackslash:
  assumes "set s1 \<subseteq> {CHR ''/'', CHR 0x5C}" and "r \<noteq> []" and "hd r \<noteq> CHR ''/''"
  shows "dropWhile (\<lambda>c. c = CHR ''/'') (replaceBackslash s1 @ r) = r"
proof -
  have "\<forall>c \<in> set (replaceBackslash s1). c = CHR ''/''"
    using assms(1) by (auto simp: replaceBackslash_def)
  then have "dropWhile (\<lambda>c. c = CHR ''/'') (replaceBackslash s1 @ r) = dropWhile (\<lambda>c. c = CHR ''/'') r"
    by (simp add: dropWhile_append)
  also have "\<dots> = r" using assms(2,3) by (cases r) auto
  finally show ?thesis .
qed

text \<open>
  C4 (as amended). When the first occurrence of the marker, in any letter case, is
  followed by separators and then \<open>Cat/Ev/Set/F0007\<close>, the derived key is
  \<open>Cat/Ev/Set/F0007\<close> followed by everything that follows it in the path (backslashes
  turned into slashes, trailing slashes removed); it is \<open>Cat/Ev/Set/F0007\<close> itself
  when nothing but separators follows.
\<close>

theorem extractTestKeyFromPath_after_marker:
  assumes "toLower mk = ''testsets_results''"
    and "indexOf (toLower (replaceBackslash (pre @ mk @ s1 @ ''Cat/Ev/Set/F0007'' @ rest)))
           ''testsets_results'' = Some (length pre)"
    and "set s1 \<subseteq> {CHR ''/'', CHR 0x5C}"
  shows "extractTestKeyFromPath (pre @ mk @ s1 @ ''Cat/Ev/Set/F0007'' @ rest)
           = ''Cat/Ev/Set/F0007'' @ chopSlashes (replaceBackslash rest)
       \<and> (set rest \<subseteq> {CHR ''/'', CHR 0x5C} \<longrightarrow>
            extractTestKeyFromPath (pre @ mk @ s1 @ ''Cat/Ev/Set/F0007'' @ rest) = ''Cat/Ev/Set/F0007'')"
proof -
  let ?key = "''Cat/Ev/Set/F0007''"
  let ?path = "pre @ mk @ s1 @ ?key @ rest"
  have lmk: "length mk = 16"
  proof -
    have "length (toLower mk) = 16" by (simp add: assms(1))
    then show ?thesis by (simp add: toLower_def)
  qed
  have rbkey: "replaceBackslash ?key = ?key" by (simp add: replaceBackslash_def)
  have rb: "replaceBackslash ?path =
      (replaceBackslash pre @ replaceBackslash mk) @ replaceBackslash s1 @ ?key @ replaceBackslash rest"
    by (simp only: replaceBackslash_append rbkey append_assoc)
  have len: "length (replaceBackslash pre @ replaceBackslash mk) = length pre + length ''testsets_results''"
    using lmk by (simp add: replaceBackslash_def)
  have dr: "drop (length pre + length ''testsets_results'') (replaceBackslash ?path)
      = replaceBackslash s1 @ ?key @ replaceBackslash rest"
    unfolding rb using len by (metis append_eq_conv_conj)
  have dw: "dropWhile (\<lambda>c. c = CHR ''/'') (replaceBackslash s1 @ ?key @ replaceBackslash rest)
      = ?key @ replaceBackslash rest"
    by (rule dropWhile_slashes_replaceBackslash [OF assms(3)]) simp_all
  have ch: "chopSlashes (?key @ replaceBackslash rest) = ?key @ chopSlashes (replaceBackslash rest)"
    by (rule chopSlashes_append) simp_all
  have nb: "CHR 0x5C \<notin> set (?key @ chopSlashes (replaceBackslash rest))"
    using set_chopSlashes [of "replaceBackslash rest"] backslash_notin_replaceBackslash [of rest]
    by auto
  have main: "extractTestKeyFromPath ?path = ?key @ chopSlashes (replaceBackslash rest)"
    unfolding extract_marker_general [OF assms(2)] dr dw ch
    by (rule replaceBackslash_id [OF nb])
  have "chopSlashes (replaceBackslash rest) = []" if "set rest \<subseteq> {CHR ''/'', CHR 0x5C}"
    by (rule chopSlashes_all_slashes) (use that in \<open>auto simp: replaceBackslash_def\<close>)
  with main show ?thesis by simp
qed

theorem extractTestKeyFromPath_after_marker_witness:
  "extractTestKeyFromPath
     (''C:/data/'' @ ''TestSets_Results'' @ [CHR 0x5C] @ ''Cat/Ev/Set/F0007'' @ ''//'')
   = ''Cat/Ev/Set/F0007''"
proof -
  have h1: "toLower ''TestSets_Results'' = ''testsets_results''"
    by (simp add: toLower_def toLower_char_def)
  have h2: "indexOf (toLower (replaceBackslash
              (''C:/data/'' @ ''TestSets_Results'' @ [CHR 0x5C] @ ''Cat/Ev/Set/F0007'' @ ''//'')))
            ''testsets_results'' = Some (length ''C:/data/'')"
    by (simp add: toLower_def toLower_char_def replaceBackslash_def)
  have h3: "set [CHR 0x5C] \<subseteq> {CHR ''/'', CHR 0x5C}" by simp
  have h4: "set ''//'' \<subseteq> {CHR ''/'', CHR 0x5C}" by simp
  from conjunct2 [OF extractTestKeyFromPath_after_marker [OF h1 h2 h3]] h4
  show ?thesis by (rule mp)
qed

text \<open>
  C4 as stated fails: a component after \<open>F0007\<close> stays in the key.
\<close>

theorem extractTestKeyFromPath_keeps_rest:
  "extractTestKeyFromPath ''C:/data/testSets_results/Cat/Ev/Set/F0007/rest'' = ''Cat/Ev/Set/F0007/rest''
   \<and> extractTestKeyFromPath ''C:/data/testSets_results/Cat/Ev/Set/F0007/rest'' \<noteq> ''Cat/Ev/Set/F0007''"
  by code_simp

section \<open>Properties of the map and of the assignment loop\<close>

lemma map_of_qmap_insert: "map_of (qmap_insert k v m) = (map_of m)(k \<mapsto> v)"
  by (induction m) (auto simp: fun_upd_twist)

lemma keys_qmap_insert: "set (map fst (qmap_insert k v m)) = insert k (set (map fst m))"
  by (induction k v m rule: qmap_insert.induct) auto

lemma sorted_qmap_insert:
  "sorted_wrt (<) (map fst m) \<Longrightarrow> sorted_wrt (<) (map fst (qmap_insert k v m))"
proof (induction m)
  case Nil
  then show ?case by simp
next
  case (Cons e m)
  obtain k' v' where e: "e = (k', v')" by (cases e)
  show ?case
  proof (cases "k = k'")
    case True
    with Cons.prems e show ?thesis by simp
  next
    case False
    show ?thesis
    proof (cases "k < k'")
      case True
      with Cons.prems e show ?thesis by (auto intro: less_trans)
    next
      case ge: False
      with False have "k' < k" by simp
      moreover have "set (map fst (qmap_insert k v m)) = insert k (set (map fst m))"
        by (rule keys_qmap_insert)
      ultimately show ?thesis using Cons e False ge by auto
    qed
  qed
qed

lemma sorted_keys_distinct: "sorted_wrt (<) (map fst (m::qmap)) \<Longrightarrow> distinct (map fst m)"
  by (simp add: strict_sorted_iff)

lemma map_of_qmap_remove: "map_of (qmap_remove k m) = (map_of m)(k := None)"
  by (induction m) (auto simp: qmap_remove_def)

lemma keys_qmap_remove: "set (map fst (qmap_remove k m)) = set (map fst m) - {k}"
  by (auto simp: qmap_remove_def image_iff)

lemma sorted_qmap_remove:
  "sorted_wrt (<) (map fst m) \<Longrightarrow> sorted_wrt (<) (map fst (qmap_remove k m))"
  by (induction m) (auto simp: qmap_remove_def)

lemma qmap_insert_present:
  "sorted_wrt (<) (map fst m) \<Longrightarrow> (k, v) \<in> set m \<Longrightarrow> qmap_insert k v m = m"
proof (induction m)
  case Nil
  then show ?case by simp
next
  case (Cons e m)
  obtain k' v' where e: "e = (k', v')" by (cases e)
  show ?case
  proof (cases "k = k'")
    case True
    have "v = v'"
    proof (rule ccontr)
      assume "v \<noteq> v'"
      with Cons.prems(2) e have "(k, v) \<in> set m" by auto
      then have "k \<in> set (map fst m)" by force
      with Cons.prems(1) e True show False by auto
    qed
    with True e show ?thesis by simp
  next
    case False
    with Cons.prems(2) e have mem: "(k, v) \<in> set m" by auto
    then have "k \<in> set (map fst m)" by force
    with Cons.prems(1) e have "k' < k" by auto
    then have "\<not> k < k'" by simp
    with False e Cons mem show ?thesis by simp
  qed
qed

lemma qmap_keys_insert_present:
  "sorted_wrt (<) (map fst m) \<Longrightarrow> k \<in> set (map fst m) \<Longrightarrow>
   map fst (qmap_insert k v m) = map fst m"
proof (induction m)
  case Nil
  then show ?case by simp
next
  case (Cons e m)
  obtain k' v' where e: "e = (k', v')" by (cases e)
  show ?case
  proof (cases "k = k'")
    case True
    with e show ?thesis by simp
  next
    case False
    with Cons.prems(2) e have mem: "k \<in> set (map fst m)" by auto
    with Cons.prems(1) e have "k' < k" by auto
    then have "\<not> k < k'" by simp
    with False e Cons mem show ?thesis by simp
  qed
qed

lemma unknown_iff: "(qmap_contains m k \<and> qmap_value m k = 0) \<longleftrightarrow> map_of m k = Some 0"
  by (auto simp: qmap_contains_def qmap_value_def split: option.splits)

lemma assignOldestUnknown_found:
  assumes "\<exists>k \<in> set q. map_of m k = Some 0"
  shows "\<exists>i < length q. map_of m (q ! i) = Some 0 \<and> (\<forall>j < i. map_of m (q ! j) \<noteq> Some 0) \<and>
           assignOldestUnknown q m t = (q ! i, qmap_insert (q ! i) t m)"
  using assms
proof (induction q)
  case Nil
  then show ?case by simp
next
  case (Cons a q)
  show ?case
  proof (cases "map_of m a = Some 0")
    case True
    then have "qmap_contains m a \<and> qmap_value m a = 0"
      by (simp only: unknown_iff)
    then have "assignOldestUnknown (a # q) m t = (a, qmap_insert a t m)"
      by simp
    with True show ?thesis by (intro exI [of _ 0]) simp
  next
    case False
    with Cons.prems have "\<exists>k \<in> set q. map_of m k = Some 0" by auto
    from Cons.IH [OF this] obtain i where i: "i < length q" "map_of m (q ! i) = Some 0"
      "\<forall>j < i. map_of m (q ! j) \<noteq> Some 0"
      "assignOldestUnknown q m t = (q ! i, qmap_insert (q ! i) t m)" by blast
    have "\<not> (qmap_contains m a \<and> qmap_value m a = 0)"
      using False by (simp only: unknown_iff not_False_eq_True)
    then have "assignOldestUnknown (a # q) m t = assignOldestUnknown q m t"
      by auto
    moreover have "\<forall>j < Suc i. map_of m ((a # q) ! j) \<noteq> Some 0"
      using False i(3) by (auto simp: nth_Cons split: nat.splits)
    ultimately show ?thesis using i by (intro exI [of _ "Suc i"]) simp
  qed
qed

lemma assignOldestUnknown_none:
  assumes "\<forall>k \<in> set q. map_of m k \<noteq> Some 0"
  shows "assignOldestUnknown q m t = ([], m)"
  using assms by (induction q) (auto simp: unknown_iff)

lemma assignOldestUnknown_cases:
  "assignOldestUnknown q m t = ([], m) \<or>
   (\<exists>k \<in> set q. map_of m k = Some 0 \<and> assignOldestUnknown q m t = (k, qmap_insert k t m))"
  by (induction q) (auto simp: unknown_iff)

section \<open>Properties of the attribution of a progress line\<close>

lemma in_qmap_iff:
  assumes "sorted_wrt (<) (map fst (m::qmap))"
  shows "(k, v) \<in> set m \<longleftrightarrow> map_of m k = Some v"
proof -
  have "distinct (map fst m)" using assms by (rule sorted_keys_distinct)
  then show ?thesis by (rule map_of_eq_Some_iff [symmetric])
qed

lemma singleton_list:
  assumes "distinct xs" and "set xs = {a}"
  shows "xs = [a]"
proof (cases xs)
  case Nil
  with assms(2) show ?thesis by simp
next
  case (Cons x ys)
  with assms(2) have x: "x = a" by auto
  have "set ys \<subseteq> {a}" using assms(2) Cons by auto
  moreover have "a \<notin> set ys" using assms(1) Cons x by simp
  ultimately have "ys = []" by (cases ys) auto
  then show ?thesis using Cons x by simp
qed

lemma findTestKeyByFrameCount_no_match:
  assumes "\<forall>k. (k, n) \<notin> set m"
  shows "findTestKeyByFrameCount m q n = []"
proof -
  have "set (matchingKeys m n) = {}" using assms by (simp add: set_matchingKeys)
  then have "matchingKeys m n = []" by simp
  then show ?thesis by (simp add: findTestKeyByFrameCount_def)
qed

lemma findTestKeyByFrameCount_unique:
  assumes "distinct (map fst m)" and "(K, n) \<in> set m" and "n > 0"
    and "\<forall>k. (k, n) \<in> set m \<longrightarrow> k = K"
  shows "findTestKeyByFrameCount m q n = K"
proof -
  have "distinct (matchingKeys m n)"
    using assms(1) by (simp add: matchingKeys_def distinct_map_filter)
  moreover have "set (matchingKeys m n) = {K}"
  proof -
    have a: "K \<in> set (matchingKeys m n)"
      using assms(2,3) by (simp add: set_matchingKeys)
    have b: "k = K" if "k \<in> set (matchingKeys m n)" for k
      using that assms(4) by (simp add: set_matchingKeys)
    from a b show ?thesis by blast
  qed
  ultimately have "matchingKeys m n = [K]" by (rule singleton_list)
  then show ?thesis by (simp add: findTestKeyByFrameCount_def)
qed

lemma findTestKeyByFrameCount_in_keys:
  assumes "findTestKeyByFrameCount m q n \<noteq> []"
  shows "findTestKeyByFrameCount m q n \<in> set (qmap_keys m)"
proof -
  let ?mk = "matchingKeys m n"
  have sub: "set ?mk \<subseteq> set (qmap_keys m)"
    by (auto simp: matchingKeys_def qmap_keys_def)
  have ne: "?mk \<noteq> []" using assms by (auto simp: findTestKeyByFrameCount_def)
  then have hd: "hd ?mk \<in> set ?mk" by simp
  have "findTestKeyByFrameCount m q n \<in> set ?mk"
  proof (cases "find (\<lambda>queueKey. queueKey \<in> set ?mk) (rev q)")
    case None
    with ne hd show ?thesis by (simp add: findTestKeyByFrameCount_def Let_def)
  next
    case (Some r)
    then have "r \<in> set ?mk" by (auto simp: find_Some_iff)
    with ne hd Some show ?thesis by (simp add: findTestKeyByFrameCount_def Let_def)
  qed
  with sub show ?thesis by blast
qed

lemma map_of_in_keys: "map_of m k = Some v \<Longrightarrow> k \<in> set (qmap_keys m)"
  by (auto simp: qmap_keys_def dest: map_of_SomeD intro: rev_image_eqI)

text \<open>What \<open>matchTestKey\<close> returns and how it leaves the tracker.\<close>

lemma matchTestKey_result:
  assumes "matchTestKey t st = (k, st')"
  shows "(k = [] \<or> k \<in> set (qmap_keys (m_activeTests st))) \<and>
         m_testKeyQueue st' = m_testKeyQueue st \<and>
         m_currentTestKey st' = m_currentTestKey st \<and>
         m_mode st' = m_mode st \<and> m_step2Queued st' = m_step2Queued st \<and>
         (m_activeTests st' = m_activeTests st \<or>
          (\<exists>k' \<in> set (qmap_keys (m_activeTests st)).
              m_activeTests st' = qmap_insert k' t (m_activeTests st)))"
proof (cases "findTestKeyByFrameCount (m_activeTests st) (m_testKeyQueue st) t = []")
  case False
  with assms have "k = findTestKeyByFrameCount (m_activeTests st) (m_testKeyQueue st) t" "st' = st"
    by (auto simp: matchTestKey_def Let_def)
  with False findTestKeyByFrameCount_in_keys [OF False] show ?thesis by simp
next
  case True
  from assignOldestUnknown_cases [of "m_testKeyQueue st" "m_activeTests st" t]
  show ?thesis
  proof
    assume "assignOldestUnknown (m_testKeyQueue st) (m_activeTests st) t = ([], m_activeTests st)"
    with True assms show ?thesis by (auto simp: matchTestKey_def Let_def)
  next
    assume "\<exists>k \<in> set (m_testKeyQueue st). map_of (m_activeTests st) k = Some 0 \<and>
       assignOldestUnknown (m_testKeyQueue st) (m_activeTests st) t
         = (k, qmap_insert k t (m_activeTests st))"
    then obtain k' where k': "map_of (m_activeTests st) k' = Some 0"
      "assignOldestUnknown (m_testKeyQueue st) (m_activeTests st) t
         = (k', qmap_insert k' t (m_activeTests st))" by blast
    from k'(1) have "k' \<in> set (qmap_keys (m_activeTests st))" by (rule map_of_in_keys)
    with True assms k'(2) show ?thesis by (auto simp: matchTestKey_def Let_def)
  qed
qed

lemma matchTestKey_maps:
  assumes "matchTestKey t st = (k, st')"
  shows "m_activeTests st' = m_activeTests st \<or>
          (\<exists>k' \<in> set (qmap_keys (m_activeTests st)).
              m_activeTests st' = qmap_insert k' t (m_activeTests st))"
  using matchTestKey_result [OF assms] by simp

lemma matchTestKey_keys:
  assumes "matchTestKey t st = (k, st')" and "sorted_wrt (<) (qmap_keys (m_activeTests st))"
  shows "qmap_keys (m_activeTests st') = qmap_keys (m_activeTests st)"
  using matchTestKey_maps [OF assms(1)]
proof
  assume "m_activeTests st' = m_activeTests st"
  then show ?thesis by simp
next
  assume "\<exists>k' \<in> set (qmap_keys (m_activeTests st)).
              m_activeTests st' = qmap_insert k' t (m_activeTests st)"
  then obtain k' where k': "k' \<in> set (map fst (m_activeTests st))"
    "m_activeTests st' = qmap_insert k' t (m_activeTests st)"
    by (auto simp: qmap_keys_def)
  have "sorted_wrt (<) (map fst (m_activeTests st))"
    using assms(2) by (simp add: qmap_keys_def)
  from qmap_keys_insert_present [OF this k'(1)] k'(2)
  show ?thesis by (simp add: qmap_keys_def)
qed

lemma matchTestKey_keys_set:
  assumes "matchTestKey t st = (k, st')"
  shows "set (qmap_keys (m_activeTests st')) = set (qmap_keys (m_activeTests st))"
  using matchTestKey_maps [OF assms(1)]
proof
  assume "m_activeTests st' = m_activeTests st"
  then show ?thesis by simp
next
  assume "\<exists>k' \<in> set (qmap_keys (m_activeTests st)).
              m_activeTests st' = qmap_insert k' t (m_activeTests st)"
  then obtain k' where k': "k' \<in> set (map fst (m_activeTests st))"
    "m_activeTests st' = qmap_insert k' t (m_activeTests st)"
    by (auto simp: qmap_keys_def)
  have "set (map fst (qmap_insert k' t (m_activeTests st))) = insert k' (set (map fst (m_activeTests st)))"
    by (rule keys_qmap_insert)
  with k' show ?thesis by (simp add: qmap_keys_def insert_absorb)
qed

lemma onProgress_eq:
  assumes "matchTestKey t st = (k, st')"
  shows "onProgress c t p st =
           (st', (if k \<noteq> [] then [testProgressUpdated k p (processingMessage c t)] else [])
                 @ [progressUpdated p (processingMessage c t)])"
  using assms by (simp add: onProgress_def Let_def)

lemma onOverallProgress_Some_eq:
  assumes "matchTestKey ft st = (k, st')"
  shows "onOverallProgress c t p (Some (fc, ft)) st =
           (st', (if k \<noteq> []
                  then [testProgressUpdated k (folderPercentOf fc ft) (processingMessage fc ft)]
                  else [])
                 @ [progressUpdated p (processingMessage c t)])"
  using assms by (simp add: onOverallProgress_def Let_def)

lemma onOverallProgress_None_eq:
  "onOverallProgress c t p None st = (st, [progressUpdated p (processingMessage c t)])"
  by (simp add: onOverallProgress_def)

text \<open>
  C2 (as amended). The tracker is as the handlers keep it, the observed total is positive
  and is the total of no key of the map, and some key of the map has total 0. Then the
  first queue entry whose key is in the map with total 0 is the key the progress line is
  attributed to: the line emits a per-test event for it, its total becomes the observed
  total, and from then on the frame count resolves to it by exact match, so that the
  next progress line with the same total is attributed to it too.
\<close>

theorem onProgress_assigns_oldest_unknown:
  assumes inv: "tracker_inv st" and pos: "0 < t"
    and nomatch: "\<forall>k. (k, t) \<notin> set (m_activeTests st)"
    and unk: "(k0, 0) \<in> set (m_activeTests st)"
  shows "\<exists>i < length (m_testKeyQueue st).
     (m_testKeyQueue st ! i, 0) \<in> set (m_activeTests st) \<and>
     (\<forall>j < i. (m_testKeyQueue st ! j, 0) \<notin> set (m_activeTests st)) \<and>
     onProgress c t p st =
       (st\<lparr>m_activeTests := qmap_insert (m_testKeyQueue st ! i) t (m_activeTests st)\<rparr>,
        [testProgressUpdated (m_testKeyQueue st ! i) p (processingMessage c t),
         progressUpdated p (processingMessage c t)]) \<and>
     (m_testKeyQueue st ! i, t) \<in> set (m_activeTests (fst (onProgress c t p st))) \<and>
     findTestKeyByFrameCount (m_activeTests (fst (onProgress c t p st)))
        (m_testKeyQueue (fst (onProgress c t p st))) t = m_testKeyQueue st ! i \<and>
     snd (onProgress c2 t p2 (fst (onProgress c t p st))) =
        [testProgressUpdated (m_testKeyQueue st ! i) p2 (processingMessage c2 t),
         progressUpdated p2 (processingMessage c2 t)]"
proof -
  let ?m = "m_activeTests st" and ?q = "m_testKeyQueue st"
  have sorted: "sorted_wrt (<) (map fst ?m)"
    using inv by (simp add: tracker_inv_def qmap_keys_def)
  have keys: "\<And>k. k \<in> set (qmap_keys ?m) \<Longrightarrow> k \<noteq> [] \<and> k \<in> set ?q"
    using inv by (simp add: tracker_inv_def list_all_iff)
  have "map_of ?m k0 = Some 0" using unk in_qmap_iff [OF sorted] by simp
  moreover from this have "k0 \<in> set ?q" using keys map_of_in_keys by blast
  ultimately have "\<exists>k \<in> set ?q. map_of ?m k = Some 0" by blast
  from assignOldestUnknown_found [OF this, of t] obtain i where i: "i < length ?q"
    "map_of ?m (?q ! i) = Some 0" "\<forall>j < i. map_of ?m (?q ! j) \<noteq> Some 0"
    "assignOldestUnknown ?q ?m t = (?q ! i, qmap_insert (?q ! i) t ?m)" by blast
  let ?K = "?q ! i"
  let ?m' = "qmap_insert ?K t ?m"
  let ?st' = "st\<lparr>m_activeTests := ?m'\<rparr>"
  have Kne: "?K \<noteq> []" using keys map_of_in_keys [OF i(2)] by blast
  have none: "findTestKeyByFrameCount ?m ?q t = []"
    by (rule findTestKeyByFrameCount_no_match [OF nomatch])
  have mt: "matchTestKey t st = (?K, ?st')"
    using none i(4) by (simp add: matchTestKey_def Let_def)
  have first: "onProgress c t p st =
       (?st', [testProgressUpdated ?K p (processingMessage c t),
               progressUpdated p (processingMessage c t)])"
    using onProgress_eq [OF mt] Kne by simp
  have sorted': "sorted_wrt (<) (map fst ?m')" by (rule sorted_qmap_insert [OF sorted])
  have mo: "map_of ?m' = (map_of ?m)(?K \<mapsto> t)" by (rule map_of_qmap_insert)
  have mem: "(?K, t) \<in> set ?m'" using in_qmap_iff [OF sorted'] mo by simp
  have uniq: "\<forall>k. (k, t) \<in> set ?m' \<longrightarrow> k = ?K"
  proof (intro allI impI)
    fix k assume "(k, t) \<in> set ?m'"
    then have a: "map_of ?m' k = Some t" using in_qmap_iff [OF sorted'] by simp
    show "k = ?K"
    proof (rule ccontr)
      assume "k \<noteq> ?K"
      with a mo have "map_of ?m k = Some t" by simp
      then have "(k, t) \<in> set ?m" using in_qmap_iff [OF sorted] by simp
      with nomatch show False by blast
    qed
  qed
  have found: "findTestKeyByFrameCount ?m' ?q t = ?K"
    by (rule findTestKeyByFrameCount_unique [OF sorted_keys_distinct [OF sorted'] mem pos uniq])
  have mt2: "matchTestKey t ?st' = (?K, ?st')"
    using found Kne by (simp add: matchTestKey_def Let_def)
  have second: "snd (onProgress c2 t p2 ?st') =
        [testProgressUpdated ?K p2 (processingMessage c2 t),
         progressUpdated p2 (processingMessage c2 t)]"
    using onProgress_eq [OF mt2] Kne by simp
  have zero: "(?K, 0) \<in> set ?m" using i(2) in_qmap_iff [OF sorted] by simp
  have older: "\<forall>j < i. (?q ! j, 0) \<notin> set ?m"
    using i(3) in_qmap_iff [OF sorted] by simp
  show ?thesis
  proof (intro exI conjI)
    show "i < length ?q" by (rule i(1))
    show "(?K, 0) \<in> set ?m" by (rule zero)
    show "\<forall>j < i. (?q ! j, 0) \<notin> set ?m" by (rule older)
    show "onProgress c t p st =
       (?st', [testProgressUpdated ?K p (processingMessage c t),
               progressUpdated p (processingMessage c t)])" by (rule first)
    show "(?K, t) \<in> set (m_activeTests (fst (onProgress c t p st)))"
      using mem by (simp add: first)
    show "findTestKeyByFrameCount (m_activeTests (fst (onProgress c t p st)))
        (m_testKeyQueue (fst (onProgress c t p st))) t = ?K"
      using found by (simp add: first)
    show "snd (onProgress c2 t p2 (fst (onProgress c t p st))) =
        [testProgressUpdated ?K p2 (processingMessage c2 t),
         progressUpdated p2 (processingMessage c2 t)]"
      using second by (simp add: first)
  qed
qed

text \<open>
  C2 as stated fails for the total 0: the line \<open>Progress: 0/0 frames (0%)\<close> is
  attributed to the key with total 0, the state stays as it was, and the frame count 0
  still resolves to no key by exact match.
\<close>

theorem zero_total_never_matches_exactly:
  "findTestKeyByFrameCount
     (m_activeTests (fst (processLine ''Starting comparison for: testSets_results/K1'' initial)))
     (m_testKeyQueue (fst (processLine ''Starting comparison for: testSets_results/K1'' initial))) 0 = []
   \<and> m_activeTests (fst (processLine ''Starting comparison for: testSets_results/K1'' initial))
       = [(''K1'', 0)]
   \<and> processLine ''Progress: 0/0 frames (0%)''
         (fst (processLine ''Starting comparison for: testSets_results/K1'' initial))
       = (fst (processLine ''Starting comparison for: testSets_results/K1'' initial),
          [testProgressUpdated ''K1'' 0 ''Processing: 0/0 frames'',
           progressUpdated 0 ''Processing: 0/0 frames''])"
  by code_simp

theorem onProgress_assigns_oldest_unknown_witness:
  "\<exists>i < length [''K1'', ''K2''].
     ([''K1'', ''K2''] ! i, 200)
       \<in> set (m_activeTests (fst (onProgress 5 200 2
            (initial\<lparr>m_activeTests := [(''K1'', 0), (''K2'', 0)],
                      m_testKeyQueue := [''K1'', ''K2'']\<rparr>))))"
proof -
  let ?st = "initial\<lparr>m_activeTests := [(''K1'', 0), (''K2'', 0)],
                      m_testKeyQueue := [''K1'', ''K2'']\<rparr>"
  have inv: "tracker_inv ?st" by (simp add: tracker_inv_def qmap_keys_def initial_def)
  have pos: "(0::int) < 200" by simp
  have nm: "\<forall>k. (k, 200) \<notin> set (m_activeTests ?st)" by (simp add: initial_def)
  have unk: "(''K1'', 0) \<in> set (m_activeTests ?st)" by (simp add: initial_def)
  from onProgress_assigns_oldest_unknown [OF inv pos nm unk, of 5 2 5 2]
  obtain i where "i < length (m_testKeyQueue ?st)"
    "(m_testKeyQueue ?st ! i, 200) \<in> set (m_activeTests (fst (onProgress 5 200 2 ?st)))"
    by blast
  then show ?thesis by (intro exI [of _ i]) (simp add: initial_def)
qed

text \<open>
  C3 (as amended). A start line for a key that is already in the map keeps the keys of
  the map and the totals of the other keys, sets the total of the key back to 0, and
  appends one more entry for the key to the queue; the map is left as it was when the
  total was still 0.
\<close>

theorem onStartingComparison_again:
  assumes "extractTestKeyFromPath folderPath = K" and "K \<noteq> []"
    and "(K, v) \<in> set (m_activeTests st)"
    and "sorted_wrt (<) (qmap_keys (m_activeTests st))"
  shows "qmap_keys (m_activeTests (fst (onStartingComparison folderPath st)))
           = qmap_keys (m_activeTests st)
     \<and> map_of (m_activeTests (fst (onStartingComparison folderPath st)))
           = (map_of (m_activeTests st))(K \<mapsto> 0)
     \<and> m_testKeyQueue (fst (onStartingComparison folderPath st)) = m_testKeyQueue st @ [K]
     \<and> (v = 0 \<longrightarrow> m_activeTests (fst (onStartingComparison folderPath st)) = m_activeTests st)
     \<and> snd (onStartingComparison folderPath st) = [testProgressUpdated K 0 ''Starting...'']"
proof -
  let ?m = "m_activeTests st"
  have sorted: "sorted_wrt (<) (map fst ?m)" using assms(4) by (simp add: qmap_keys_def)
  have eq: "onStartingComparison folderPath st =
      (st\<lparr>m_currentTestKey := K, m_activeTests := qmap_insert K 0 ?m,
           m_testKeyQueue := m_testKeyQueue st @ [K]\<rparr>,
       [testProgressUpdated K 0 ''Starting...''])"
    using assms(1,2) by (simp add: onStartingComparison_def Let_def)
  have inkeys: "K \<in> set (map fst ?m)" using assms(3) by force
  have k: "map fst (qmap_insert K 0 ?m) = map fst ?m"
    by (rule qmap_keys_insert_present [OF sorted inkeys])
  have same: "qmap_insert K 0 ?m = ?m" if "v = 0"
    using qmap_insert_present [OF sorted assms(3)] that by simp
  show ?thesis using k same by (simp add: eq qmap_keys_def map_of_qmap_insert)
qed

theorem onStartingComparison_again_witness:
  "m_testKeyQueue (fst (onStartingComparison ''C:/r/testSets_results/K1''
      (initial\<lparr>m_activeTests := [(''K1'', 50)], m_testKeyQueue := [''K1'']\<rparr>)))
     = [''K1'', ''K1'']"
proof -
  let ?st = "initial\<lparr>m_activeTests := [(''K1'', 50)], m_testKeyQueue := [''K1'']\<rparr>"
  have h1: "extractTestKeyFromPath ''C:/r/testSets_results/K1'' = ''K1''" by code_simp
  have h2: "''K1'' \<noteq> []" by simp
  have h3: "(''K1'', 50) \<in> set (m_activeTests ?st)" by (simp add: initial_def)
  have h4: "sorted_wrt (<) (qmap_keys (m_activeTests ?st))"
    by (simp add: initial_def qmap_keys_def)
  from onStartingComparison_again [OF h1 h2 h3 h4]
  have "m_testKeyQueue (fst (onStartingComparison ''C:/r/testSets_results/K1'' ?st))
          = m_testKeyQueue ?st @ [''K1'']" by blast
  then show ?thesis by (simp add: initial_def)
qed

text \<open>
  C3 as stated fails: after a start line and a progress line the key has total 50 and
  one queue entry; a second start line for the same key leaves it with total 0 and two
  queue entries.
\<close>

theorem second_start_line_resets_total:
  "m_activeTests (fst (processLines
      [''Starting comparison for: C:/r/testSets_results/K1'',
       ''Progress: 1/50 frames (2%)''] initial)) = [(''K1'', 50)]
   \<and> m_testKeyQueue (fst (processLines
      [''Starting comparison for: C:/r/testSets_results/K1'',
       ''Progress: 1/50 frames (2%)''] initial)) = [''K1'']
   \<and> m_activeTests (fst (processLines
      [''Starting comparison for: C:/r/testSets_results/K1'',
       ''Progress: 1/50 frames (2%)'',
       ''Starting comparison for: C:/r/testSets_results/K1''] initial)) = [(''K1'', 0)]
   \<and> m_testKeyQueue (fst (processLines
      [''Starting comparison for: C:/r/testSets_results/K1'',
       ''Progress: 1/50 frames (2%)'',
       ''Starting comparison for: C:/r/testSets_results/K1''] initial)) = [''K1'', ''K1'']"
  by code_simp

section \<open>Properties of the events of a progress line\<close>

lemma onProgress_event_key:
  assumes "testProgressUpdated k p msg \<in> set (snd (onProgress c t pc st))"
  shows "k \<in> set (qmap_keys (m_activeTests st)) \<and>
         k \<in> set (qmap_keys (m_activeTests (fst (onProgress c t pc st))))"
proof -
  obtain k' st' where mt: "matchTestKey t st = (k', st')" by (cases "matchTestKey t st")
  from assms have "k' \<noteq> []" "k = k'"
    by (auto simp: onProgress_eq [OF mt] split: if_splits)
  moreover from matchTestKey_result [OF mt]
  have "k' = [] \<or> k' \<in> set (qmap_keys (m_activeTests st))" by simp
  moreover have "set (qmap_keys (m_activeTests st')) = set (qmap_keys (m_activeTests st))"
    by (rule matchTestKey_keys_set [OF mt])
  ultimately show ?thesis by (simp add: onProgress_eq [OF mt])
qed

lemma onOverallProgress_event_key:
  assumes "testProgressUpdated k p msg \<in> set (snd (onOverallProgress c t pc cf st))"
  shows "k \<in> set (qmap_keys (m_activeTests st)) \<and>
         k \<in> set (qmap_keys (m_activeTests (fst (onOverallProgress c t pc cf st))))"
proof (cases cf)
  case None
  with assms show ?thesis by (simp add: onOverallProgress_None_eq)
next
  case (Some ab)
  obtain fc ft where ab: "ab = (fc, ft)" by (cases ab)
  obtain k' st' where mt: "matchTestKey ft st = (k', st')" by (cases "matchTestKey ft st")
  from assms have "k' \<noteq> []" "k = k'"
    by (auto simp: Some ab onOverallProgress_Some_eq [OF mt] split: if_splits)
  moreover from matchTestKey_result [OF mt]
  have "k' = [] \<or> k' \<in> set (qmap_keys (m_activeTests st))" by simp
  moreover have "set (qmap_keys (m_activeTests st')) = set (qmap_keys (m_activeTests st))"
    by (rule matchTestKey_keys_set [OF mt])
  ultimately show ?thesis by (simp add: Some ab onOverallProgress_Some_eq [OF mt])
qed

text \<open>
  C10. A per-test event of a progress line (\<open>Progress:\<close> or \<open>Current folder:\<close>) names a
  key of the active-test map, before and after the line is handled, whatever the queue
  holds. The older completion marker takes the current key out of the map and leaves the
  queue as it is, so the entry that stays behind in the queue is not selected any more.
\<close>

theorem resolution_names_active_key:
  "(testProgressUpdated k p msg \<in> set (snd (onProgress c t pc st)) \<longrightarrow>
       k \<in> set (qmap_keys (m_activeTests st)) \<and>
       k \<in> set (qmap_keys (m_activeTests (fst (onProgress c t pc st)))))
   \<and> (testProgressUpdated k p msg \<in> set (snd (onOverallProgress c t pc cf st)) \<longrightarrow>
       k \<in> set (qmap_keys (m_activeTests st)) \<and>
       k \<in> set (qmap_keys (m_activeTests (fst (onOverallProgress c t pc cf st)))))
   \<and> m_testKeyQueue (fst (onFrameComparisonCompleted st)) = m_testKeyQueue st
   \<and> (m_currentTestKey st \<noteq> [] \<longrightarrow>
       m_currentTestKey st
         \<notin> set (qmap_keys (m_activeTests (fst (onFrameComparisonCompleted st)))))"
proof (intro conjI impI)
  show "m_testKeyQueue (fst (onFrameComparisonCompleted st)) = m_testKeyQueue st"
    by (simp add: onFrameComparisonCompleted_def)
  show "m_currentTestKey st
         \<notin> set (qmap_keys (m_activeTests (fst (onFrameComparisonCompleted st))))"
    if "m_currentTestKey st \<noteq> []"
    using that by (auto simp: onFrameComparisonCompleted_def qmap_keys_def qmap_remove_def)
qed (simp_all add: onProgress_event_key onOverallProgress_event_key)

theorem resolution_names_active_key_witness:
  "''K1'' \<notin> set (qmap_keys (m_activeTests (fst (onFrameComparisonCompleted
      (initial\<lparr>m_currentTestKey := ''K1'', m_activeTests := [(''K1'', 0), (''K2'', 0)],
                m_testKeyQueue := [''K1'', ''K2'']\<rparr>)))))
   \<and> ''K2'' \<in> set (qmap_keys (m_activeTests (fst (onFrameComparisonCompleted
      (initial\<lparr>m_currentTestKey := ''K1'', m_activeTests := [(''K1'', 0), (''K2'', 0)],
                m_testKeyQueue := [''K1'', ''K2'']\<rparr>)))))"
proof -
  let ?st = "initial\<lparr>m_currentTestKey := ''K1'', m_activeTests := [(''K1'', 0), (''K2'', 0)],
                m_testKeyQueue := [''K1'', ''K2'']\<rparr>"
  let ?st1 = "fst (onFrameComparisonCompleted ?st)"
  have cur: "m_currentTestKey ?st = ''K1''" by (simp add: initial_def)
  have ev: "testProgressUpdated ''K2'' 2 ''Processing: 5/200 frames''
              \<in> set (snd (onProgress 5 200 2 ?st1))" by code_simp
  from resolution_names_active_key [of "''K2''" 2 "''Processing: 5/200 frames''" 5 200 2 ?st1]
    ev
  have a: "''K2'' \<in> set (qmap_keys (m_activeTests ?st1))" by blast
  from resolution_names_active_key [of "''K2''" 2 "''Processing: 5/200 frames''" 5 200 2 ?st]
    cur
  have b: "''K1'' \<notin> set (qmap_keys (m_activeTests ?st1))" by simp
  from a b show ?thesis by simp
qed

text \<open>
  C9. An overall-progress line whose \<open>Current folder: A/B frames\<close> clause has \<open>B = 0\<close>:
  the per-folder percent is 0 (the quotient is not computed), a per-test event, if the
  line is attributed to a key at all, carries that 0, and the overall event with the
  line's own percent is emitted last.
\<close>

theorem overall_progress_zero_folder_total:
  assumes "startingRegex line = None" and "progressRegex line = None"
    and "overallProgressRegex line = Some (c1, c2, c3)"
    and "currentFolderRegex line = Some (a, b)" and "toInt b = 0"
  shows "folderPercentOf (toInt a) (toInt b) = 0 \<and>
    snd (processLine line st) =
      (if fst (matchTestKey 0 st) \<noteq> []
       then [testProgressUpdated (fst (matchTestKey 0 st)) 0 (processingMessage (toInt a) 0)]
       else [])
      @ [progressUpdated (toInt c3) (processingMessage (toInt c1) (toInt c2))]"
proof -
  obtain k st' where mt: "matchTestKey 0 st = (k, st')" by (cases "matchTestKey 0 st")
  have "processLine line st =
      onOverallProgress (toInt c1) (toInt c2) (toInt c3) (Some (toInt a, 0)) st"
    using assms by (simp add: processLine_def)
  then show ?thesis
    using assms(5) mt
    by (simp add: onOverallProgress_Some_eq [OF mt] folderPercentOf_def)
qed

theorem overall_progress_zero_folder_total_witness:
  "snd (processLine ''Overall progress: 5/100 frames (5%) - Current folder: 3/0 frames''
      (initial\<lparr>m_currentTestKey := ''K1'', m_activeTests := [(''K1'', 0)],
                m_testKeyQueue := [''K1'']\<rparr>))
   = [testProgressUpdated ''K1'' 0 ''Processing: 3/0 frames'',
      progressUpdated 5 ''Processing: 5/100 frames'']"
proof -
  let ?line = "''Overall progress: 5/100 frames (5%) - Current folder: 3/0 frames''"
  let ?st = "initial\<lparr>m_currentTestKey := ''K1'', m_activeTests := [(''K1'', 0)],
                m_testKeyQueue := [''K1'']\<rparr>"
  have h1: "startingRegex ?line = None" by code_simp
  have h2: "progressRegex ?line = None" by code_simp
  have h3: "overallProgressRegex ?line = Some (''5'', ''100'', ''5'')" by code_simp
  have h4: "currentFolderRegex ?line = Some (''3'', ''0'')" by code_simp
  have h5: "toInt ''0'' = 0" by code_simp
  have r: "(if fst (matchTestKey 0 ?st) \<noteq> []
       then [testProgressUpdated (fst (matchTestKey 0 ?st)) 0 (processingMessage (toInt ''3'') 0)]
       else [])
      @ [progressUpdated (toInt ''5'') (processingMessage (toInt ''5'') (toInt ''100''))]
     = [testProgressUpdated ''K1'' 0 ''Processing: 3/0 frames'',
        progressUpdated 5 ''Processing: 5/100 frames'']" by code_simp
  from conjunct2 [OF overall_progress_zero_folder_total [OF h1 h2 h3 h4 h5, of ?st]] r
  show ?thesis by (rule trans)
qed

section \<open>Properties of starting, finishing and stopping\<close>

lemma startProcess_state: "fst (startProcess env program args wd st) = st"
  by (simp add: startProcess_def)

lemma startProcess_started:
  assumes "programExists env program \<or> programIsExecutable env program
             \<or> findExecutable env program \<noteq> []"
    and "waitForStarted env"
  shows "startProcess env program args wd st = (st, [start_m_process program args wd])"
  using assms by (auto simp: startProcess_def)

lemma last_commandLine: "last (commandLine env testerPath iniPath subcommand) = subcommand"
  by (simp add: commandLine_def Let_def)

text \<open>
  The output handlers leave the mode and the step-2 flag alone and emit no run outcome.
\<close>

lemma runOutcomes_Nil: "runOutcomes [] = []"
  by (simp add: runOutcomes_def)

lemma runOutcomes_append: "runOutcomes (a @ b) = runOutcomes a @ runOutcomes b"
  by (simp add: runOutcomes_def)

lemma runOutcomes_phase:
  "runOutcomes (case x of
       Some phaseNum \<Rightarrow> [progressUpdated (- 1) (''Phase '' @ phaseNum @ '' completed'')]
     | None \<Rightarrow> []) = []"
  by (cases x) (simp_all add: runOutcomes_def)

lemma runOutcomes_progressUpdated: "runOutcomes [progressUpdated p msg] = []"
  by (simp add: runOutcomes_def)

lemma quiet_onStartingComparison:
  "m_mode (fst (onStartingComparison p st)) = m_mode st \<and>
   m_step2Queued (fst (onStartingComparison p st)) = m_step2Queued st \<and>
   runOutcomes (snd (onStartingComparison p st)) = []"
  by (simp add: onStartingComparison_def Let_def runOutcomes_def)

lemma quiet_onProgress:
  "m_mode (fst (onProgress c t p st)) = m_mode st \<and>
   m_step2Queued (fst (onProgress c t p st)) = m_step2Queued st \<and>
   runOutcomes (snd (onProgress c t p st)) = []"
proof -
  obtain k st' where mt: "matchTestKey t st = (k, st')" by (cases "matchTestKey t st")
  from matchTestKey_result [OF mt] have "m_mode st' = m_mode st"
    "m_step2Queued st' = m_step2Queued st" by simp_all
  then show ?thesis by (simp add: onProgress_eq [OF mt] runOutcomes_def)
qed

lemma quiet_onOverallProgress:
  "m_mode (fst (onOverallProgress c t p cf st)) = m_mode st \<and>
   m_step2Queued (fst (onOverallProgress c t p cf st)) = m_step2Queued st \<and>
   runOutcomes (snd (onOverallProgress c t p cf st)) = []"
proof (cases cf)
  case None
  then show ?thesis by (simp add: onOverallProgress_None_eq runOutcomes_def)
next
  case (Some ab)
  obtain fc ft where ab: "ab = (fc, ft)" by (cases ab)
  obtain k st' where mt: "matchTestKey ft st = (k, st')" by (cases "matchTestKey ft st")
  from matchTestKey_result [OF mt] have "m_mode st' = m_mode st"
    "m_step2Queued st' = m_step2Queued st" by simp_all
  then show ?thesis by (simp add: Some ab onOverallProgress_Some_eq [OF mt] runOutcomes_def)
qed

lemma quiet_onSuccessfullyCompleted:
  "m_mode (fst (onSuccessfullyCompleted p st)) = m_mode st \<and>
   m_step2Queued (fst (onSuccessfullyCompleted p st)) = m_step2Queued st \<and>
   runOutcomes (snd (onSuccessfullyCompleted p st)) = []"
  by (simp add: onSuccessfullyCompleted_def Let_def runOutcomes_def)

lemma quiet_onOtherLine:
  "m_mode (fst (onOtherLine line st)) = m_mode st \<and>
   m_step2Queued (fst (onOtherLine line st)) = m_step2Queued st \<and>
   runOutcomes (snd (onOtherLine line st)) = []"
proof -
  define X where "X = (if contains_CaseInsensitive line ''Frame comparison completed''
                       then onFrameComparisonCompleted st else (st, []))"
  have X: "m_mode (fst X) = m_mode st" "m_step2Queued (fst X) = m_step2Queued st"
    "runOutcomes (snd X) = []"
    by (simp_all add: X_def onFrameComparisonCompleted_def runOutcomes_def)
  define E2 where "E2 =
      (if contains_CaseInsensitive line ''Phase'' \<and> contains_CaseInsensitive line ''completed''
       then (case phaseRegex line of
               Some phaseNum \<Rightarrow> [progressUpdated (- 1) (''Phase '' @ phaseNum @ '' completed'')]
             | None \<Rightarrow> [])
       else [])"
  define E3 where "E3 =
      (if contains_CaseInsensitive line ''All phases completed''
          \<or> contains_CaseInsensitive line ''completed successfully''
       then [progressUpdated 100 ''Processing completed''] else [])"
  have E2: "runOutcomes E2 = []"
    unfolding E2_def by (simp add: runOutcomes_phase runOutcomes_Nil)
  have E3: "runOutcomes E3 = []"
    unfolding E3_def by (simp add: runOutcomes_progressUpdated runOutcomes_Nil)
  have eq: "onOtherLine line st = (fst X, snd X @ E2 @ E3)"
    by (simp add: onOtherLine_def X_def E2_def E3_def Let_def case_prod_beta)
  have "runOutcomes (snd X @ E2 @ E3) = []"
    using X(3) E2 E3 by (simp add: runOutcomes_append)
  with X eq show ?thesis by simp
qed

lemma quiet_processLine:
  "m_mode (fst (processLine line st)) = m_mode st \<and>
   m_step2Queued (fst (processLine line st)) = m_step2Queued st \<and>
   runOutcomes (snd (processLine line st)) = []"
proof (cases "startingRegex line")
  case (Some cap1)
  then show ?thesis by (simp add: processLine_def quiet_onStartingComparison)
next
  case n1: None
  show ?thesis
  proof (cases "progressRegex line")
    case (Some caps)
    with n1 show ?thesis
      by (simp add: processLine_def quiet_onProgress split: prod.split)
  next
    case n2: None
    show ?thesis
    proof (cases "overallProgressRegex line")
      case (Some caps)
      with n1 n2 show ?thesis
        by (simp add: processLine_def quiet_onOverallProgress split: prod.split)
    next
      case n3: None
      show ?thesis
      proof (cases "completedRegex line")
        case (Some cap1)
        with n1 n2 n3 show ?thesis
          by (simp add: processLine_def quiet_onSuccessfullyCompleted)
      next
        case None
        with n1 n2 n3 show ?thesis by (simp add: processLine_def quiet_onOtherLine)
      qed
    qed
  qed
qed

lemma quiet_processLines:
  "m_mode (fst (processLines lines st)) = m_mode st \<and>
   m_step2Queued (fst (processLines lines st)) = m_step2Queued st \<and>
   runOutcomes (snd (processLines lines st)) = []"
proof (induction lines arbitrary: st)
  case Nil
  then show ?case by (simp add: runOutcomes_def)
next
  case (Cons line lines)
  obtain st1 effs1 where a: "processLine line st = (st1, effs1)" by (cases "processLine line st")
  obtain st2 effs2 where b: "processLines lines st1 = (st2, effs2)"
    by (cases "processLines lines st1")
  from quiet_processLine [of line st] a have 1: "m_mode st1 = m_mode st"
    "m_step2Queued st1 = m_step2Queued st" "runOutcomes effs1 = []" by simp_all
  from Cons.IH [of st1] b have 2: "m_mode st2 = m_mode st1"
    "m_step2Queued st2 = m_step2Queued st1" "runOutcomes effs2 = []" by simp_all
  from 1 2 show ?case using a b by (simp add: runOutcomes_def)
qed

lemma runOutcomes_rawOutputLines: "runOutcomes (rawOutputLines tag output isError) = []"
  by (simp add: runOutcomes_def rawOutputLines_def filter_empty_conv)

lemma quiet_onReadyReadStandardOutput:
  "m_mode (fst (onReadyReadStandardOutput output st)) = m_mode st \<and>
   m_step2Queued (fst (onReadyReadStandardOutput output st)) = m_step2Queued st \<and>
   runOutcomes (snd (onReadyReadStandardOutput output st)) = []"
proof -
  obtain st' effs where a:
    "processLines (split_SkipEmptyParts (CHR 0x0A) output) st = (st', effs)"
    by (cases "processLines (split_SkipEmptyParts (CHR 0x0A) output) st")
  from quiet_processLines [of "split_SkipEmptyParts (CHR 0x0A) output" st] a
  have "m_mode st' = m_mode st" "m_step2Queued st' = m_step2Queued st" "runOutcomes effs = []"
    by simp_all
  moreover have "runOutcomes (rawOutputLines [] output False @ effs) = runOutcomes effs"
    using runOutcomes_rawOutputLines [of "[]" _ False] by (simp add: runOutcomes_def)
  ultimately show ?thesis using a by (simp add: onReadyReadStandardOutput_def)
qed

lemma quiet_deliverChunks:
  "m_mode (fst (deliverChunks outputs st)) = m_mode st \<and>
   m_step2Queued (fst (deliverChunks outputs st)) = m_step2Queued st \<and>
   runOutcomes (snd (deliverChunks outputs st)) = []"
proof (induction outputs arbitrary: st)
  case Nil
  then show ?case by (simp add: runOutcomes_def)
next
  case (Cons out outs)
  obtain st1 effs1 where a: "onReadyReadStandardOutput out st = (st1, effs1)"
    by (cases "onReadyReadStandardOutput out st")
  obtain st2 effs2 where b: "deliverChunks outs st1 = (st2, effs2)"
    by (cases "deliverChunks outs st1")
  from quiet_onReadyReadStandardOutput [of out st] a have 1: "m_mode st1 = m_mode st"
    "m_step2Queued st1 = m_step2Queued st" "runOutcomes effs1 = []" by simp_all
  from Cons.IH [of st1] b have 2: "m_mode st2 = m_mode st1"
    "m_step2Queued st2 = m_step2Queued st1" "runOutcomes effs2 = []" by simp_all
  from 1 2 show ?case using a b by (simp add: runOutcomes_def)
qed

text \<open>
  C6 (as amended). In chained mode, when the process of the first phase ends (with
  whatever exit code) and the second phase is not queued yet, and \<open>python\<close> can be
  launched (it is found, and the process starts within the wait): the slot queues the
  second phase and starts \<open>prepare-ui\<close>, emits no run outcome and keeps the mode.
  Output that arrives afterwards emits no run outcome either; the exit of the second
  process emits exactly one, and only then the mode goes back to none.
\<close>

theorem chained_first_exit_starts_second_phase:
  assumes "m_mode st = Mode_CompareThenPrepare" and "\<not> m_step2Queued st"
    and "programExists env ''python'' \<or> programIsExecutable env ''python''
           \<or> findExecutable env ''python'' \<noteq> []"
    and "waitForStarted env"
    and "st1 = fst (onProcessFinished env exitCode exitStatus stdOut stdErr st)"
    and "st2 = fst (deliverChunks outputs st1)"
  shows "snd (onProcessFinished env exitCode exitStatus stdOut stdErr st) =
           [progressUpdated 100 ''Processing completed'',
            start_m_process ''python''
              (commandLine env (m_testerPath st) (m_iniPath st) ''prepare-ui'')
              (workingDirectoryOf env (m_testerPath st))]
     \<and> last (commandLine env (m_testerPath st) (m_iniPath st) ''prepare-ui'') = ''prepare-ui''
     \<and> runOutcomes (snd (onProcessFinished env exitCode exitStatus stdOut stdErr st)) = []
     \<and> m_mode st1 = Mode_CompareThenPrepare \<and> m_step2Queued st1
     \<and> runOutcomes (snd (deliverChunks outputs st1)) = []
     \<and> m_mode st2 = Mode_CompareThenPrepare
     \<and> runOutcomes (snd (onProcessFinished env2 exitCode2 exitStatus2 stdOut2 stdErr2 st2))
         = [runFinished (exitStatus2 = NormalExit \<and> exitCode2 = 0) ''compare+prepare''
              exitCode2 stdOut2 stdErr2]
     \<and> m_mode (fst (onProcessFinished env2 exitCode2 exitStatus2 stdOut2 stdErr2 st2))
         = Mode_None"
proof -
  let ?st0 = "st\<lparr>m_activeTests := [], m_testKeyQueue := [], m_currentTestKey := [],
                  m_step2Queued := True\<rparr>"
  have next_step: "runNextStep env ?st0 =
      (?st0, [start_m_process ''python''
              (commandLine env (m_testerPath st) (m_iniPath st) ''prepare-ui'')
              (workingDirectoryOf env (m_testerPath st))])"
    using assms(1) startProcess_started [OF assms(3,4)] by (simp add: runNextStep_def)
  have first: "onProcessFinished env exitCode exitStatus stdOut stdErr st =
      (?st0, [progressUpdated 100 ''Processing completed'',
              start_m_process ''python''
                (commandLine env (m_testerPath st) (m_iniPath st) ''prepare-ui'')
                (workingDirectoryOf env (m_testerPath st))])"
    using assms(1,2) next_step by (simp add: onProcessFinished_def Let_def)
  have st1: "st1 = ?st0" using assms(5) first by simp
  have m1: "m_mode st1 = Mode_CompareThenPrepare" "m_step2Queued st1"
    using assms(1) by (simp_all add: st1)
  have q: "m_mode st2 = m_mode st1" "m_step2Queued st2 = m_step2Queued st1"
    "runOutcomes (snd (deliverChunks outputs st1)) = []"
    using quiet_deliverChunks [of outputs st1] by (simp_all add: assms(6))
  have m2: "m_mode st2 = Mode_CompareThenPrepare" "m_step2Queued st2"
    using q m1 by simp_all
  have second: "onProcessFinished env2 exitCode2 exitStatus2 stdOut2 stdErr2 st2 =
      (st2\<lparr>m_activeTests := [], m_testKeyQueue := [], m_currentTestKey := [],
           m_mode := Mode_None, m_step2Queued := False\<rparr>,
       [progressUpdated 100 ''Processing completed'',
        runFinished (exitStatus2 = NormalExit \<and> exitCode2 = 0) ''compare+prepare''
              exitCode2 stdOut2 stdErr2])"
    using m2 by (simp add: onProcessFinished_def Let_def modeStr_def)
  have o1: "runOutcomes [progressUpdated 100 ''Processing completed'',
              start_m_process ''python''
                (commandLine env (m_testerPath st) (m_iniPath st) ''prepare-ui'')
                (workingDirectoryOf env (m_testerPath st))] = []"
    by (simp add: runOutcomes_def)
  have o2: "runOutcomes [progressUpdated 100 ''Processing completed'',
        runFinished (exitStatus2 = NormalExit \<and> exitCode2 = 0) ''compare+prepare''
              exitCode2 stdOut2 stdErr2]
      = [runFinished (exitStatus2 = NormalExit \<and> exitCode2 = 0) ''compare+prepare''
              exitCode2 stdOut2 stdErr2]"
    by (simp add: runOutcomes_def)
  show ?thesis
    using m1 m2 q(3) o1 o2 by (simp add: first second last_commandLine)
qed

theorem chained_first_exit_starts_second_phase_witness:
  "runOutcomes (snd (onProcessFinished (exampleEnv NotRunning NotRunning True True)
       0 NormalExit [] []
       (initial\<lparr>m_mode := Mode_CompareThenPrepare, m_testerPath := ''C:/tester'',
                 m_iniPath := ''C:/cfg.ini''\<rparr>))) = []
   \<and> runOutcomes (snd (onProcessFinished (exampleEnv NotRunning NotRunning True True)
       1 NormalExit [] ''error''
       (fst (deliverChunks [''Phase 4 completed'']
         (fst (onProcessFinished (exampleEnv NotRunning NotRunning True True)
            0 NormalExit [] []
            (initial\<lparr>m_mode := Mode_CompareThenPrepare, m_testerPath := ''C:/tester'',
                      m_iniPath := ''C:/cfg.ini''\<rparr>)))))))
     = [runFinished False ''compare+prepare'' 1 [] ''error'']"
proof -
  let ?env = "exampleEnv NotRunning NotRunning True True"
  let ?st = "initial\<lparr>m_mode := Mode_CompareThenPrepare, m_testerPath := ''C:/tester'',
                 m_iniPath := ''C:/cfg.ini''\<rparr>"
  have h1: "m_mode ?st = Mode_CompareThenPrepare" by (simp add: initial_def)
  have h2: "\<not> m_step2Queued ?st" by (simp add: initial_def)
  have h3: "programExists ?env ''python'' \<or> programIsExecutable ?env ''python''
           \<or> findExecutable ?env ''python'' \<noteq> []" by (simp add: exampleEnv_def)
  have h4: "waitForStarted ?env" by (simp add: exampleEnv_def)
  note t = chained_first_exit_starts_second_phase [OF h1 h2 h3 h4 refl refl,
      of 0 NormalExit "[]" "[]" "[''Phase 4 completed'']" ?env 1 NormalExit "[]" "''error''"]
  have a: "runOutcomes (snd (onProcessFinished ?env 0 NormalExit [] [] ?st)) = []"
    using t by (elim conjE)
  have b: "runOutcomes (snd (onProcessFinished ?env 1 NormalExit [] ''error''
       (fst (deliverChunks [''Phase 4 completed'']
         (fst (onProcessFinished ?env 0 NormalExit [] [] ?st))))))
     = [runFinished (NormalExit = NormalExit \<and> (1::int) = 0) ''compare+prepare'' 1 [] ''error'']"
    using t by (elim conjE)
  from a b show ?thesis by simp
qed

text \<open>
  C6 as stated fails: when \<open>python\<close> is not found at the exit of the first phase, no
  second phase is started and that exit emits a run outcome, the failed one of the
  launch; the same when the process does not start within the wait.
\<close>

theorem first_phase_exit_with_failed_launch:
  "snd (onProcessFinished (exampleEnv NotRunning NotRunning False True)
       0 NormalExit [] []
       (initial\<lparr>m_mode := Mode_CompareThenPrepare, m_testerPath := ''C:/tester'',
                 m_iniPath := ''C:/cfg.ini''\<rparr>))
     = [progressUpdated 100 ''Processing completed'',
        runFinished False ''unknown'' (- 1) [] ''Program not found: python'']
   \<and> runOutcomes (snd (onProcessFinished (exampleEnv NotRunning NotRunning True False)
       0 NormalExit [] []
       (initial\<lparr>m_mode := Mode_CompareThenPrepare, m_testerPath := ''C:/tester'',
                 m_iniPath := ''C:/cfg.ini''\<rparr>)))
     = [runFinished False ''unknown'' (- 1) []
          ''Failed to start process: No such file or directory'']"
  by code_simp




lemma duringWaitPrepareUI_state: "fst (duringWaitPrepareUI w4 s) = s"
  by (simp add: duringWaitPrepareUI_def onPrepareUIProcessFinished_def Let_def
      split: option.split)

text \<open>
  The output handlers emit no \<open>Cancelled\<close> event: their per-test events carry the
  messages \<open>Starting...\<close>, \<open>Processing: ...\<close> and \<open>Completed\<close>.
\<close>

lemma cancelledEvents_Nil: "cancelledEvents [] = []"
  by (simp add: cancelledEvents_def)

lemma cancelledEvents_append:
  "cancelledEvents (a @ b) = cancelledEvents a @ cancelledEvents b"
  by (simp add: cancelledEvents_def)

lemma cancelledEvents_processing:
  "cancelledEvents [testProgressUpdated k p (processingMessage c t)] = []"
  by (simp add: cancelledEvents_def processingMessage_def)

lemma cancelledEvents_progressUpdated: "cancelledEvents [progressUpdated p msg] = []"
  by (simp add: cancelledEvents_def)

lemma cancelledEvents_phase:
  "cancelledEvents (case x of
       Some phaseNum \<Rightarrow> [progressUpdated (- 1) (''Phase '' @ phaseNum @ '' completed'')]
     | None \<Rightarrow> []) = []"
  by (cases x) (simp_all add: cancelledEvents_def)

lemma calm_onStartingComparison: "cancelledEvents (snd (onStartingComparison p st)) = []"
  by (simp add: onStartingComparison_def Let_def cancelledEvents_def)

lemma calm_onProgress: "cancelledEvents (snd (onProgress c t p st)) = []"
proof -
  obtain k st' where mt: "matchTestKey t st = (k, st')" by (cases "matchTestKey t st")
  show ?thesis
    by (cases "k = []")
       (simp_all add: onProgress_eq [OF mt] cancelledEvents_def processingMessage_def)
qed

lemma calm_onOverallProgress: "cancelledEvents (snd (onOverallProgress c t p cf st)) = []"
proof (cases cf)
  case None
  then show ?thesis by (simp add: onOverallProgress_None_eq cancelledEvents_progressUpdated)
next
  case (Some ab)
  obtain fc ft where ab: "ab = (fc, ft)" by (cases ab)
  obtain k st' where mt: "matchTestKey ft st = (k, st')" by (cases "matchTestKey ft st")
  show ?thesis
    by (cases "k = []")
       (simp_all add: Some ab onOverallProgress_Some_eq [OF mt] cancelledEvents_def
          processingMessage_def)
qed

lemma calm_onSuccessfullyCompleted:
  "cancelledEvents (snd (onSuccessfullyCompleted p st)) = []"
  by (simp add: onSuccessfullyCompleted_def Let_def cancelledEvents_def)

lemma calm_onOtherLine: "cancelledEvents (snd (onOtherLine line st)) = []"
proof -
  define X where "X = (if contains_CaseInsensitive line ''Frame comparison completed''
                       then onFrameComparisonCompleted st else (st, []))"
  have X: "cancelledEvents (snd X) = []"
    by (simp add: X_def onFrameComparisonCompleted_def cancelledEvents_def)
  define E2 where "E2 =
      (if contains_CaseInsensitive line ''Phase'' \<and> contains_CaseInsensitive line ''completed''
       then (case phaseRegex line of
               Some phaseNum \<Rightarrow> [progressUpdated (- 1) (''Phase '' @ phaseNum @ '' completed'')]
             | None \<Rightarrow> [])
       else [])"
  define E3 where "E3 =
      (if contains_CaseInsensitive line ''All phases completed''
          \<or> contains_CaseInsensitive line ''completed successfully''
       then [progressUpdated 100 ''Processing completed''] else [])"
  have E2: "cancelledEvents E2 = []"
    unfolding E2_def by (simp add: cancelledEvents_phase cancelledEvents_Nil)
  have E3: "cancelledEvents E3 = []"
    unfolding E3_def by (simp add: cancelledEvents_progressUpdated cancelledEvents_Nil)
  have eq: "onOtherLine line st = (fst X, snd X @ E2 @ E3)"
    by (simp add: onOtherLine_def X_def E2_def E3_def Let_def case_prod_beta)
  show ?thesis using X E2 E3 by (simp add: eq cancelledEvents_append)
qed

lemma calm_processLine: "cancelledEvents (snd (processLine line st)) = []"
proof (cases "startingRegex line")
  case (Some cap1)
  then show ?thesis by (simp add: processLine_def calm_onStartingComparison)
next
  case n1: None
  show ?thesis
  proof (cases "progressRegex line")
    case (Some caps)
    with n1 show ?thesis by (simp add: processLine_def calm_onProgress split: prod.split)
  next
    case n2: None
    show ?thesis
    proof (cases "overallProgressRegex line")
      case (Some caps)
      with n1 n2 show ?thesis
        by (simp add: processLine_def calm_onOverallProgress split: prod.split)
    next
      case n3: None
      show ?thesis
      proof (cases "completedRegex line")
        case (Some cap1)
        with n1 n2 n3 show ?thesis by (simp add: processLine_def calm_onSuccessfullyCompleted)
      next
        case None
        with n1 n2 n3 show ?thesis by (simp add: processLine_def calm_onOtherLine)
      qed
    qed
  qed
qed

lemma calm_processLines: "cancelledEvents (snd (processLines lines st)) = []"
proof (induction lines arbitrary: st)
  case Nil
  then show ?case by (simp add: cancelledEvents_Nil)
next
  case (Cons line lines)
  from calm_processLine [of line st] Cons.IH [of "fst (processLine line st)"]
  show ?case by (simp add: case_prod_beta Let_def cancelledEvents_append)
qed

lemma cancelledEvents_rawOutputLines: "cancelledEvents (rawOutputLines tag out isError) = []"
  by (simp add: cancelledEvents_def rawOutputLines_def filter_empty_conv)

lemma calm_onReadyReadStandardOutput:
  "cancelledEvents (snd (onReadyReadStandardOutput out st)) = []"
  using calm_processLines [of "split_SkipEmptyParts (CHR 0x0A) out" st]
  by (simp add: onReadyReadStandardOutput_def case_prod_beta cancelledEvents_append
      cancelledEvents_rawOutputLines)

lemma calm_deliverChunks: "cancelledEvents (snd (deliverChunks outs st)) = []"
proof (induction outs arbitrary: st)
  case Nil
  then show ?case by (simp add: cancelledEvents_Nil)
next
  case (Cons out outs)
  from calm_onReadyReadStandardOutput [of out st]
    Cons.IH [of "fst (onReadyReadStandardOutput out st)"]
  show ?case by (simp add: case_prod_beta Let_def cancelledEvents_append)
qed

text \<open>The waits in which no exit is reported.\<close>

lemma duringWait_no_exit:
  "exited w = None \<Longrightarrow> duringWait env w st = deliverChunks (chunks w) st"
  by (simp add: duringWait_def case_prod_beta)

lemma duringWaitPrepareUI_no_exit:
  assumes "exited w4 = None"
  shows "runOutcomes (snd (duringWaitPrepareUI w4 st)) = []"
    and "cancelledEvents (snd (duringWaitPrepareUI w4 st)) = []"
proof -
  have eq: "snd (duringWaitPrepareUI w4 st) =
      concat (map (\<lambda>out. rawOutputLines ''[Phase 4] '' out False) (chunks w4))"
    using assms by (simp add: duringWaitPrepareUI_def)
  have "\<forall>e \<in> set (concat (map (\<lambda>out. rawOutputLines ''[Phase 4] '' out False) (chunks w4))).
          \<not> isRunFinished e \<and> \<not> isCancelled e"
    by (auto simp: rawOutputLines_def)
  then show "runOutcomes (snd (duringWaitPrepareUI w4 st)) = []"
    and "cancelledEvents (snd (duringWaitPrepareUI w4 st)) = []"
    by (simp_all add: eq runOutcomes_def cancelledEvents_def filter_empty_conv)
qed

lemma cancellations_none:
  "cancelledEvents effs = [] \<Longrightarrow> runOutcomes effs = [] \<Longrightarrow> cancellations effs = []"
  by (auto simp: cancellations_def cancelledEvents_def runOutcomes_def filter_empty_conv)

lemma cancellations_deliverChunks: "cancellations (snd (deliverChunks outs st)) = []"
  using calm_deliverChunks [of outs st] quiet_deliverChunks [of outs st]
  by (simp add: cancellations_none)

lemma cancellations_duringWaitPrepareUI:
  "exited w4 = None \<Longrightarrow> cancellations (snd (duringWaitPrepareUI w4 st)) = []"
  using duringWaitPrepareUI_no_exit [of w4 st] by (simp add: cancellations_none)

text \<open>
  C8 (as amended). \<open>stop\<close> called while the main process is running or starting, the
  process not reporting its exit within the wait: among the events of the call, the
  \<open>Cancelled\<close> events and the run outcomes are, in this order, one \<open>Cancelled\<close> event for
  each key active in the tracker (once the output that arrived in the wait is handled),
  then exactly one failed run outcome with the mode of the run and the message
  \<open>Operation cancelled by user\<close>; the runner is left with the mode none, the step-2 flag
  cleared and the tracker empty. \<open>stop\<close> called while the main process is not running
  emits no \<open>Cancelled\<close> event and no outcome of the main run, and leaves the state as it
  is. In both cases a Phase 4 process that is running or starting (and does not report its
  exit within its wait) is reported by one failed run outcome of its own, after the ones
  of the main process.
\<close>

theorem stop_cancels_what_is_running:
  assumes "exited w = None" and "exited w4 = None"
    and "st' = fst (deliverChunks (chunks w) st)"
    and "phase4 = (if isActive (m_prepareUIProcess_state env)
                   then [runFinished False ''prepare-ui'' (- 1) [] ''Phase 4 cancelled by user'']
                   else [])"
  shows "(isActive (m_process_state env) \<longrightarrow>
      cancellations (snd (stop env w w4 st))
        = map (\<lambda>k. testProgressUpdated k (- 1) ''Cancelled'') (qmap_keys (m_activeTests st'))
          @ [runFinished False (modeStr (m_mode st)) (- 1) [] ''Operation cancelled by user'']
          @ phase4
      \<and> m_mode (fst (stop env w w4 st)) = Mode_None
      \<and> \<not> m_step2Queued (fst (stop env w w4 st))
      \<and> m_activeTests (fst (stop env w w4 st)) = []
      \<and> m_testKeyQueue (fst (stop env w w4 st)) = []
      \<and> m_currentTestKey (fst (stop env w w4 st)) = [])
   \<and> (\<not> isActive (m_process_state env) \<longrightarrow>
      cancellations (snd (stop env w w4 st)) = phase4
      \<and> fst (stop env w w4 st) = st)"
proof (intro conjI impI)
  assume a: "isActive (m_process_state env)"
  obtain s e where d: "deliverChunks (chunks w) st = (s, e)"
    by (cases "deliverChunks (chunks w) st")
  have dw: "duringWait env w st = (s, e)" using duringWait_no_exit [OF assms(1)] d by simp
  have s: "st' = s" using assms(3) d by simp
  have m: "m_mode s = m_mode st" using quiet_deliverChunks [of "chunks w" st] d by simp
  have e: "cancellations e = []" using cancellations_deliverChunks [of "chunks w" st] d by simp
  let ?s1 = "s\<lparr>m_activeTests := [], m_testKeyQueue := [], m_currentTestKey := [],
              m_mode := Mode_None, m_step2Queued := False\<rparr>"
  obtain s4 e4 where d4: "duringWaitPrepareUI w4 ?s1 = (s4, e4)"
    by (cases "duringWaitPrepareUI w4 ?s1")
  have s4: "s4 = ?s1" using duringWaitPrepareUI_state [of w4 ?s1] d4 by simp
  have e4: "cancellations e4 = []"
    using cancellations_duringWaitPrepareUI [OF assms(2), of ?s1] d4 by simp
  have effs: "snd (stop env w w4 st) =
      [kill_m_process] @ e @ [kill_m_process]
      @ map (\<lambda>k. testProgressUpdated k (- 1) ''Cancelled'') (qmap_keys (m_activeTests s))
      @ [runFinished False (modeStr (m_mode s)) (- 1) [] ''Operation cancelled by user'']
      @ (if isActive (m_prepareUIProcess_state env)
         then [kill_m_prepareUIProcess] @ e4 @ [kill_m_prepareUIProcess]
              @ [runFinished False ''prepare-ui'' (- 1) [] ''Phase 4 cancelled by user'']
         else [])"
    using a dw d4 assms(1,2) by (simp add: stop_def Let_def)
  show "cancellations (snd (stop env w w4 st))
        = map (\<lambda>k. testProgressUpdated k (- 1) ''Cancelled'') (qmap_keys (m_activeTests st'))
          @ [runFinished False (modeStr (m_mode st)) (- 1) [] ''Operation cancelled by user'']
          @ phase4"
    using e e4 unfolding effs assms(4) s cancellations_def by (simp add: m comp_def)
  have st: "fst (stop env w w4 st) = ?s1"
    using a dw d4 s4 by (simp add: stop_def Let_def)
  show "m_mode (fst (stop env w w4 st)) = Mode_None"
    "\<not> m_step2Queued (fst (stop env w w4 st))"
    "m_activeTests (fst (stop env w w4 st)) = []"
    "m_testKeyQueue (fst (stop env w w4 st)) = []"
    "m_currentTestKey (fst (stop env w w4 st)) = []"
    by (simp_all add: st)
next
  assume a: "\<not> isActive (m_process_state env)"
  obtain s4 e4 where d4: "duringWaitPrepareUI w4 st = (s4, e4)"
    by (cases "duringWaitPrepareUI w4 st")
  have s4: "s4 = st" using duringWaitPrepareUI_state [of w4 st] d4 by simp
  have e4: "cancellations e4 = []"
    using cancellations_duringWaitPrepareUI [OF assms(2), of st] d4 by simp
  have effs: "snd (stop env w w4 st) =
      (if isActive (m_prepareUIProcess_state env)
         then [kill_m_prepareUIProcess] @ e4 @ [kill_m_prepareUIProcess]
              @ [runFinished False ''prepare-ui'' (- 1) [] ''Phase 4 cancelled by user'']
         else [])"
    using a d4 assms(2) by (simp add: stop_def Let_def)
  show "cancellations (snd (stop env w w4 st)) = phase4"
    using e4 unfolding effs assms(4) cancellations_def by simp
  show "fst (stop env w w4 st) = st"
    using a d4 s4 by (simp add: stop_def Let_def)
qed

theorem stop_cancels_what_is_running_witness:
  "cancellations (snd (stop (exampleEnv Running NotRunning True True)
        \<lparr>chunks = [], exited = None\<rparr> \<lparr>chunks = [], exited = None\<rparr>
        (initial\<lparr>m_mode := Mode_All, m_currentTestKey := ''K2'',
                  m_activeTests := [(''K1'', 50), (''K2'', 0)],
                  m_testKeyQueue := [''K1'', ''K2'']\<rparr>)))
     = [testProgressUpdated ''K1'' (- 1) ''Cancelled'',
        testProgressUpdated ''K2'' (- 1) ''Cancelled'',
        runFinished False ''all'' (- 1) [] ''Operation cancelled by user'']
   \<and> m_mode (fst (stop (exampleEnv Running NotRunning True True)
        \<lparr>chunks = [], exited = None\<rparr> \<lparr>chunks = [], exited = None\<rparr>
        (initial\<lparr>m_mode := Mode_All, m_currentTestKey := ''K2'',
                  m_activeTests := [(''K1'', 50), (''K2'', 0)],
                  m_testKeyQueue := [''K1'', ''K2'']\<rparr>))) = Mode_None
   \<and> m_activeTests (fst (stop (exampleEnv Running NotRunning True True)
        \<lparr>chunks = [], exited = None\<rparr> \<lparr>chunks = [], exited = None\<rparr>
        (initial\<lparr>m_mode := Mode_All, m_currentTestKey := ''K2'',
                  m_activeTests := [(''K1'', 50), (''K2'', 0)],
                  m_testKeyQueue := [''K1'', ''K2'']\<rparr>))) = []
   \<and> cancellations (snd (stop (exampleEnv NotRunning Running True True)
        \<lparr>chunks = [], exited = None\<rparr> \<lparr>chunks = [], exited = None\<rparr> initial))
     = [runFinished False ''prepare-ui'' (- 1) [] ''Phase 4 cancelled by user'']"
proof -
  let ?env = "exampleEnv Running NotRunning True True"
  let ?env4 = "exampleEnv NotRunning Running True True"
  let ?w = "\<lparr>chunks = [], exited = None\<rparr>"
  let ?st = "initial\<lparr>m_mode := Mode_All, m_currentTestKey := ''K2'',
                  m_activeTests := [(''K1'', 50), (''K2'', 0)],
                  m_testKeyQueue := [''K1'', ''K2'']\<rparr>"
  have w: "exited ?w = None" by simp
  have act: "isActive (m_process_state ?env)" by (simp add: exampleEnv_def isActive_def)
  have p4: "\<not> isActive (m_prepareUIProcess_state ?env)"
    by (simp add: exampleEnv_def isActive_def)
  have nact: "\<not> isActive (m_process_state ?env4)" by (simp add: exampleEnv_def isActive_def)
  have act4: "isActive (m_prepareUIProcess_state ?env4)"
    by (simp add: exampleEnv_def isActive_def)
  note t = stop_cancels_what_is_running [OF w w refl refl]
  note t1 = mp [OF conjunct1 [OF t [where env = ?env and st = ?st]] act]
  note t2 = mp [OF conjunct2 [OF t [where env = ?env4 and st = initial]] nact]
  from t1 have a: "cancellations (snd (stop ?env ?w ?w ?st))
     = [testProgressUpdated ''K1'' (- 1) ''Cancelled'',
        testProgressUpdated ''K2'' (- 1) ''Cancelled'',
        runFinished False ''all'' (- 1) [] ''Operation cancelled by user'']"
    using p4 by (simp add: initial_def qmap_keys_def modeStr_def)
  from t1 have b: "m_mode (fst (stop ?env ?w ?w ?st)) = Mode_None"
    by (elim conjE)
  from t1 have b': "m_activeTests (fst (stop ?env ?w ?w ?st)) = []"
    by (elim conjE)
  from t2 have c: "cancellations (snd (stop ?env4 ?w ?w initial))
     = [runFinished False ''prepare-ui'' (- 1) [] ''Phase 4 cancelled by user'']"
    using act4 by simp
  from a b b' c show ?thesis by (intro conjI)
qed

text \<open>
  The statement above leaves out the call in which the killed process reports its exit
  within the wait. There the \<open>finished\<close> slot runs inside \<open>stop\<close>, before the loop over
  the map, and clears the map and the mode: for the same two active keys no \<open>Cancelled\<close>
  event is emitted and two run outcomes are, the second one with the mode \<open>unknown\<close>.
\<close>

lemma stop_after_exit_within_the_wait:
  "stop (exampleEnv Running NotRunning True True)
        \<lparr>chunks = [], exited = Some (62097, CrashExit, [], [])\<rparr>
        \<lparr>chunks = [], exited = None\<rparr>
        (initial\<lparr>m_mode := Mode_All, m_currentTestKey := ''K2'',
                  m_activeTests := [(''K1'', 50), (''K2'', 0)],
                  m_testKeyQueue := [''K1'', ''K2'']\<rparr>)
   = (initial,
      [kill_m_process,
       progressUpdated 100 ''Processing completed'',
       runFinished False ''all'' 62097 [] [],
       runFinished False ''unknown'' (- 1) [] ''Operation cancelled by user''])"
  by code_simp

text \<open>
  C8 as stated fails: a call while no process runs emits nothing, no run outcome among
  it; when the launch of a run has failed before, the mode that run request set stays.
\<close>

theorem stop_without_process_emits_nothing:
  "stop (exampleEnv NotRunning NotRunning True True)
        \<lparr>chunks = [], exited = None\<rparr> \<lparr>chunks = [], exited = None\<rparr> initial
     = (initial, [])
   \<and> snd (stop (exampleEnv NotRunning NotRunning False True)
        \<lparr>chunks = [], exited = None\<rparr> \<lparr>chunks = [], exited = None\<rparr>
        (fst (runAll (exampleEnv NotRunning NotRunning False True)
               ''C:/tester'' ''C:/cfg.ini'' initial))) = []
   \<and> m_mode (fst (stop (exampleEnv NotRunning NotRunning False True)
        \<lparr>chunks = [], exited = None\<rparr> \<lparr>chunks = [], exited = None\<rparr>
        (fst (runAll (exampleEnv NotRunning NotRunning False True)
               ''C:/tester'' ''C:/cfg.ini'' initial)))) = Mode_All"
  by code_simp

text \<open>
  C5 at its failing inputs. \<open>runAll\<close> with a program that is not found, and
  \<open>runCompareAndPrepare\<close> with a process that does not start: the failed run outcome is
  emitted, and the mode the request has set before the launch stays.
\<close>

theorem launch_failure_keeps_mode:
  "m_mode (fst (runAll (exampleEnv NotRunning NotRunning False True)
                  ''C:/tester'' ''C:/cfg.ini'' initial)) = Mode_All
   \<and> snd (runAll (exampleEnv NotRunning NotRunning False True)
                  ''C:/tester'' ''C:/cfg.ini'' initial)
       = [runStarted ''all'',
          runFinished False ''unknown'' (- 1) [] ''Program not found: python'']
   \<and> m_mode (fst (runCompareAndPrepare (exampleEnv NotRunning NotRunning True False)
                  ''C:/tester'' ''C:/cfg.ini'' initial)) = Mode_CompareThenPrepare
   \<and> snd (runCompareAndPrepare (exampleEnv NotRunning NotRunning True False)
                  ''C:/tester'' ''C:/cfg.ini'' initial)
       = [runStarted ''compare+prepare'',
          start_m_process ''python'' [''main.py'', ''--ini'', ''C:/cfg.ini'', ''compare'']
            ''C:/tester'',
          runFinished False ''unknown'' (- 1) []
            ''Failed to start process: No such file or directory'']"
  by code_simp

section \<open>The tracker invariant is kept by every operation\<close>

lemma tracker_inv_iff:
  "tracker_inv st \<longleftrightarrow>
     sorted_wrt (<) (map fst (m_activeTests st)) \<and>
     (\<forall>k \<in> set (map fst (m_activeTests st)). k \<noteq> [] \<and> k \<in> set (m_testKeyQueue st))"
  by (simp add: tracker_inv_def qmap_keys_def list_all_iff)

lemma tracker_inv_cleared:
  "tracker_inv (st\<lparr>m_activeTests := [], m_testKeyQueue := q\<rparr>)"
  by (simp add: tracker_inv_iff)

lemma tracker_inv_initial: "tracker_inv initial"
  by (simp add: tracker_inv_iff initial_def)

lemma tracker_inv_cong:
  assumes "tracker_inv st" and "m_activeTests st' = m_activeTests st"
    and "m_testKeyQueue st' = m_testKeyQueue st"
  shows "tracker_inv st'"
  using assms by (simp add: tracker_inv_iff)

lemma tracker_inv_onStartingComparison:
  assumes "tracker_inv st"
  shows "tracker_inv (fst (onStartingComparison p st))"
proof (cases "extractTestKeyFromPath p = []")
  case True
  with assms show ?thesis by (simp add: onStartingComparison_def)
next
  case False
  let ?K = "extractTestKeyFromPath p"
  have s: "sorted_wrt (<) (map fst (qmap_insert ?K 0 (m_activeTests st)))"
    using assms by (simp add: tracker_inv_iff sorted_qmap_insert)
  have k: "set (map fst (qmap_insert ?K 0 (m_activeTests st)))
             = insert ?K (set (map fst (m_activeTests st)))"
    by (rule keys_qmap_insert)
  have "\<forall>k \<in> set (map fst (qmap_insert ?K 0 (m_activeTests st))).
          k \<noteq> [] \<and> k \<in> set (m_testKeyQueue st @ [?K])"
    unfolding k using assms False by (simp add: tracker_inv_iff)
  with s False show ?thesis
    by (simp add: onStartingComparison_def Let_def tracker_inv_iff)
qed

lemma tracker_inv_matchTestKey:
  assumes "tracker_inv st" and "matchTestKey t st = (k, st')"
  shows "tracker_inv st'"
proof -
  have sorted: "sorted_wrt (<) (qmap_keys (m_activeTests st))"
    using assms(1) by (simp add: tracker_inv_def)
  have "qmap_keys (m_activeTests st') = qmap_keys (m_activeTests st)"
    by (rule matchTestKey_keys [OF assms(2) sorted])
  moreover have "m_testKeyQueue st' = m_testKeyQueue st"
    using matchTestKey_result [OF assms(2)] by simp
  ultimately show ?thesis using assms(1) by (simp add: tracker_inv_def)
qed

lemma tracker_inv_onProgress:
  assumes "tracker_inv st"
  shows "tracker_inv (fst (onProgress c t p st))"
proof -
  obtain k st' where mt: "matchTestKey t st = (k, st')" by (cases "matchTestKey t st")
  from tracker_inv_matchTestKey [OF assms mt] show ?thesis
    by (simp add: onProgress_eq [OF mt])
qed

lemma tracker_inv_onOverallProgress:
  assumes "tracker_inv st"
  shows "tracker_inv (fst (onOverallProgress c t p cf st))"
proof (cases cf)
  case None
  with assms show ?thesis by (simp add: onOverallProgress_None_eq)
next
  case (Some ab)
  obtain fc ft where ab: "ab = (fc, ft)" by (cases ab)
  obtain k st' where mt: "matchTestKey ft st = (k, st')" by (cases "matchTestKey ft st")
  from tracker_inv_matchTestKey [OF assms mt] show ?thesis
    by (simp add: Some ab onOverallProgress_Some_eq [OF mt])
qed

lemma tracker_inv_remove:
  assumes "tracker_inv st"
    and "m_activeTests st' = qmap_remove K (m_activeTests st)"
    and "m_testKeyQueue st' = m_testKeyQueue st \<or> m_testKeyQueue st' = remove1 K (m_testKeyQueue st)"
  shows "tracker_inv st'"
proof -
  have s: "sorted_wrt (<) (map fst (m_activeTests st'))"
    using assms(1,2) by (simp add: tracker_inv_iff sorted_qmap_remove)
  have k: "set (map fst (m_activeTests st')) = set (map fst (m_activeTests st)) - {K}"
    unfolding assms(2) by (rule keys_qmap_remove)
  have "k \<noteq> [] \<and> k \<in> set (m_testKeyQueue st')" if "k \<in> set (map fst (m_activeTests st'))" for k
  proof -
    from that k have a: "k \<in> set (map fst (m_activeTests st))" "k \<noteq> K" by auto
    with assms(1) have b: "k \<noteq> []" "k \<in> set (m_testKeyQueue st)"
      by (auto simp: tracker_inv_iff)
    from assms(3) b(2) a(2) have "k \<in> set (m_testKeyQueue st')" by auto
    with b(1) show ?thesis by simp
  qed
  with s show ?thesis by (simp add: tracker_inv_iff)
qed

lemma tracker_inv_onSuccessfullyCompleted:
  assumes "tracker_inv st"
  shows "tracker_inv (fst (onSuccessfullyCompleted p st))"
proof (cases "extractTestKeyFromPath p = []")
  case False
  show ?thesis
    by (rule tracker_inv_remove [OF assms, of _ "extractTestKeyFromPath p"])
       (use False in \<open>simp_all add: onSuccessfullyCompleted_def Let_def\<close>)
next
  case True
  show ?thesis
  proof (cases "m_currentTestKey st = []")
    case True
    with \<open>extractTestKeyFromPath p = []\<close> assms show ?thesis
      by (simp add: onSuccessfullyCompleted_def)
  next
    case False
    show ?thesis
      by (rule tracker_inv_remove [OF assms, of _ "m_currentTestKey st"])
         (use False True \<open>extractTestKeyFromPath p = []\<close> in
           \<open>simp_all add: onSuccessfullyCompleted_def Let_def\<close>)
  qed
qed

lemma tracker_inv_onFrameComparisonCompleted:
  assumes "tracker_inv st"
  shows "tracker_inv (fst (onFrameComparisonCompleted st))"
proof (cases "m_currentTestKey st = []")
  case True
  with assms show ?thesis by (simp add: onFrameComparisonCompleted_def)
next
  case False
  show ?thesis
    by (rule tracker_inv_remove [OF assms, of _ "m_currentTestKey st"])
       (use False in \<open>simp_all add: onFrameComparisonCompleted_def\<close>)
qed

lemma tracker_inv_onOtherLine:
  assumes "tracker_inv st"
  shows "tracker_inv (fst (onOtherLine line st))"
proof -
  have "fst (onOtherLine line st) =
      fst (if contains_CaseInsensitive line ''Frame comparison completed''
           then onFrameComparisonCompleted st else (st, []))"
    by (simp add: onOtherLine_def Let_def case_prod_beta)
  with assms tracker_inv_onFrameComparisonCompleted [OF assms] show ?thesis by simp
qed

lemma tracker_inv_processLine:
  assumes "tracker_inv st"
  shows "tracker_inv (fst (processLine line st))"
proof (cases "startingRegex line")
  case (Some cap1)
  then show ?thesis by (simp add: processLine_def tracker_inv_onStartingComparison [OF assms])
next
  case n1: None
  show ?thesis
  proof (cases "progressRegex line")
    case (Some caps)
    with n1 show ?thesis
      by (simp add: processLine_def tracker_inv_onProgress [OF assms] split: prod.split)
  next
    case n2: None
    show ?thesis
    proof (cases "overallProgressRegex line")
      case (Some caps)
      with n1 n2 show ?thesis
        by (simp add: processLine_def tracker_inv_onOverallProgress [OF assms] split: prod.split)
    next
      case n3: None
      show ?thesis
      proof (cases "completedRegex line")
        case (Some cap1)
        with n1 n2 n3 show ?thesis
          by (simp add: processLine_def tracker_inv_onSuccessfullyCompleted [OF assms])
      next
        case None
        with n1 n2 n3 show ?thesis
          by (simp add: processLine_def tracker_inv_onOtherLine [OF assms])
      qed
    qed
  qed
qed

lemma tracker_inv_processLines:
  "tracker_inv st \<Longrightarrow> tracker_inv (fst (processLines lines st))"
proof (induction lines arbitrary: st)
  case Nil
  then show ?case by simp
next
  case (Cons line lines)
  from Cons.IH [OF tracker_inv_processLine [OF Cons.prems, of line]]
  show ?case by (simp add: case_prod_beta Let_def)
qed

lemma tracker_inv_onReadyReadStandardOutput:
  "tracker_inv st \<Longrightarrow> tracker_inv (fst (onReadyReadStandardOutput out st))"
  using tracker_inv_processLines [of st "split_SkipEmptyParts (CHR 0x0A) out"]
  by (simp add: onReadyReadStandardOutput_def case_prod_beta)

lemma tracker_inv_deliverChunks:
  "tracker_inv st \<Longrightarrow> tracker_inv (fst (deliverChunks outs st))"
proof (induction outs arbitrary: st)
  case Nil
  then show ?case by simp
next
  case (Cons out outs)
  from Cons.IH [OF tracker_inv_onReadyReadStandardOutput [OF Cons.prems, of out]]
  show ?case by (simp add: case_prod_beta Let_def)
qed

lemma tracker_inv_onProcessFinished:
  "tracker_inv (fst (onProcessFinished env exitCode exitStatus stdOut stdErr st))"
  by (simp add: onProcessFinished_def Let_def runNextStep_def case_prod_beta
      startProcess_state tracker_inv_iff)

lemma tracker_inv_runAll:
  "tracker_inv st \<Longrightarrow> tracker_inv (fst (runAll env testerPath iniPath st))"
  by (simp add: runAll_def Let_def case_prod_beta startProcess_state tracker_inv_iff)

lemma tracker_inv_runCompareAndPrepare:
  "tracker_inv st \<Longrightarrow> tracker_inv (fst (runCompareAndPrepare env testerPath iniPath st))"
  by (simp add: runCompareAndPrepare_def Let_def case_prod_beta startProcess_state
      tracker_inv_iff)

lemma tracker_inv_runPrepareUI:
  "tracker_inv st \<Longrightarrow> tracker_inv (fst (runPrepareUI env testerPath iniPath st))"
  by (simp add: runPrepareUI_def)

lemma stop_state:
  "fst (stop env w w4 st) =
     (if isActive (m_process_state env)
      then (fst (duringWait env w st))\<lparr>m_activeTests := [], m_testKeyQueue := [],
              m_currentTestKey := [], m_mode := Mode_None, m_step2Queued := False\<rparr>
      else st)"
  by (simp add: stop_def Let_def case_prod_beta duringWaitPrepareUI_state)

lemma tracker_inv_stop:
  assumes "tracker_inv st"
  shows "tracker_inv (fst (stop env w w4 st))"
  using assms by (simp add: stop_state tracker_inv_iff)

end
